theory Spec2Isabelle
  imports Main "HOL-Library.Word" "HOL-Library.Multiset"
begin

unbundle bit_operations_syntax

section \<open>Chain Builder: data model\<close>

text \<open>
  The target is a 64-bit platform: \<open>std::size_t\<close>, \<open>std::uintptr_t\<close> and
  \<open>MemoryAddress\<close> (a \<open>void*\<close>) are 64-bit words, with
  \<open>sizeof(MemoryAddress) = alignof(MemoryAddress) = 8\<close>. The null pointer is the word 0.
\<close>

type_synonym size_t = "64 word"
type_synonym address = "64 word"

definition pointer_align :: size_t where
  "pointer_align = 8"

definition pointer_size :: size_t where
  "pointer_size = 8"

text \<open>
  Memory holds one pointer value per address at which a pointer is stored. The builder only
  stores through addresses that passed its alignment checks, so two different store addresses
  are at least eight bytes apart and the cells never overlap. Every store is also appended to
  a log, so that "no writes" and "these writes, in this order" can be stated.
\<close>

record memory =
  cells :: "address \<Rightarrow> address"
  stores :: "(address \<times> address) list"

definition store :: "address \<Rightarrow> address \<Rightarrow> memory \<Rightarrow> memory" where
  "store a v m = m\<lparr>cells := (cells m)(a := v), stores := stores m @ [(a, v)]\<rparr>"

datatype exn = InvalidArgument string | RuntimeError string | BadAlloc

text \<open>
  \<open>std::mt19937_64\<close> is a library engine, not code of this repository: the model takes it as a
  parameter, a seeding function and a step function returning one 64-bit output and the next
  state.
\<close>

record 's engine =
  seed_engine :: "64 word \<Rightarrow> 's"
  next_output :: "'s \<Rightarrow> 64 word \<times> 's"

text \<open>
  A draw from \<open>std::uniform_int_distribution\<close> over \<open>[0, b]\<close>: one engine output reduced
  into the range.
\<close>

definition uniform_index :: "'s engine \<Rightarrow> nat \<Rightarrow> 's \<Rightarrow> nat \<times> 's" where
  "uniform_index E b s = (case next_output E s of (r, s') \<Rightarrow> (unat r mod (b + 1), s'))"

text \<open>
  \<open>std::shuffle\<close> is library code as well; its algorithm is the Fisher-Yates loop: for each
  position \<open>i\<close> from 1 upwards, swap the element at \<open>i\<close> with the element at a drawn
  position \<open>j \<le> i\<close>. What is proved below about the shuffled vector uses only that every step
  swaps two positions in range, not which positions are drawn.
\<close>

function shuffle_loop :: "'s engine \<Rightarrow> nat \<Rightarrow> size_t list \<Rightarrow> 's \<Rightarrow> size_t list" where
  "shuffle_loop E i xs s =
     (if i < length xs
      then (case uniform_index E i s of
              (j, s') \<Rightarrow> shuffle_loop E (Suc i) (xs[i := xs ! j, j := xs ! i]) s')
      else xs)"
  by pat_completeness auto
termination
  by (relation "measure (\<lambda>(E, i, xs, s). length xs - i)") auto

text \<open>
  \<open>std::iota(first, last, 0)\<close>: the counter has the type of the literal \<open>0\<close>, which is
  \<open>int\<close> (32 bits); each element receives the counter converted to \<open>std::size_t\<close> (sign
  extension), then the counter is incremented. Incrementing past \<open>INT_MAX\<close> is undefined in
  C++; the model wraps in two's complement there.
\<close>

fun iota :: "nat \<Rightarrow> 32 word \<Rightarrow> size_t list" where
  "iota 0 v = []"
| "iota (Suc k) v = scast v # iota k (v + 1)"

text \<open>
  The index vector: \<open>num_elements\<close> entries filled by \<open>std::iota\<close>, then shuffled with an
  engine constructed from the seed. The allocation of the vector is taken to succeed.
\<close>

definition generate_random_permutation :: "'s engine \<Rightarrow> size_t \<Rightarrow> 64 word \<Rightarrow> size_t list" where
  "generate_random_permutation E num_elements seed =
     (let indices = iota (unat num_elements) 0;
          rng = seed_engine E seed
      in shuffle_loop E 1 indices rng)"

definition get_element_location :: "address \<Rightarrow> size_t \<Rightarrow> size_t \<Rightarrow> address" where
  "get_element_location buffer index padded_bytes_per_element =
     buffer + index * padded_bytes_per_element"

text \<open>
  The linking loop \<open>for (i = 0; i < num_elements - 1; ++i)\<close>. It is entered only with
  \<open>num_elements \<ge> 1\<close>, so \<open>num_elements - 1\<close> does not wrap, and the counter stays below
  it: the counter is a natural number here.
\<close>

function link_loop ::
  "address \<Rightarrow> size_t \<Rightarrow> size_t list \<Rightarrow> size_t \<Rightarrow> nat \<Rightarrow> memory \<Rightarrow> memory" where
  "link_loop buffer padded_bytes_per_element indices num_elements i m =
     (if i < unat (num_elements - 1)
      then (let current_ptr = get_element_location buffer (indices ! i) padded_bytes_per_element;
                next_ptr = get_element_location buffer (indices ! (i + 1)) padded_bytes_per_element
            in link_loop buffer padded_bytes_per_element indices num_elements (Suc i)
                 (store current_ptr next_ptr m))
      else m)"
  by pat_completeness auto
termination
  by (relation "measure (\<lambda>(b, p, ix, n, i, m). unat (n - 1) - i)") auto

definition msg_buffer_align :: string where
  "msg_buffer_align = ''`buffer` must be aligned to 8 bytes.''"

definition msg_stride_align :: string where
  "msg_stride_align = ''`padded_bytes_per_element` must be a multiple of 8.''"

definition msg_stride_small :: string where
  "msg_stride_small = ''`padded_bytes_per_element` must be at least 8.''"

text \<open>
  The result is the thrown exception, or the returned entry address together with the memory
  after the call.
\<close>

definition generate_random_pointer_chasing ::
  "'s engine \<Rightarrow> address \<Rightarrow> size_t \<Rightarrow> size_t \<Rightarrow> 64 word \<Rightarrow> memory \<Rightarrow> exn + (address \<times> memory)" where
  "generate_random_pointer_chasing E buffer num_elements padded_bytes_per_element seed m =
     (if buffer = 0 \<or> num_elements = 0 then Inr (0, m)
      else if buffer mod pointer_align \<noteq> 0 then Inl (InvalidArgument msg_buffer_align)
      else if padded_bytes_per_element mod pointer_align \<noteq> 0
        then Inl (InvalidArgument msg_stride_align)
      else if padded_bytes_per_element < pointer_size
        then Inl (InvalidArgument msg_stride_small)
      else
        (let indices = generate_random_permutation E num_elements seed;
             m1 = link_loop buffer padded_bytes_per_element indices num_elements 0 m;
             last_ptr = get_element_location buffer (indices ! unat (num_elements - 1))
                          padded_bytes_per_element;
             first_ptr = get_element_location buffer (indices ! 0) padded_bytes_per_element
         in Inr (first_ptr, store last_ptr first_ptr m1)))"

text \<open>
  Modelled from the spec: the traversal kernel \<open>walk_pointer_chain\<close> (\<open>utils.hpp\<close>) is not
  among the sources. Traversal repeatedly dereferences the current slot's next-pointer field:
  \<open>follow m p k\<close> is the address reached from \<open>p\<close> by loading the pointer stored at the
  current address \<open>k\<close> times.
\<close>

fun follow :: "memory \<Rightarrow> address \<Rightarrow> nat \<Rightarrow> address" where
  "follow m p 0 = p"
| "follow m p (Suc k) = follow m (cells m p) k"

text \<open>The effect of a list of stores, oldest first, on the cells.\<close>

fun apply_stores :: "(address \<times> address) list \<Rightarrow> (address \<Rightarrow> address) \<Rightarrow> (address \<Rightarrow> address)" where
  "apply_stores [] c = c"
| "apply_stores ((a, v) # ws) c = apply_stores ws (c(a := v))"

text \<open>
  A stand-in engine for running the model on concrete inputs: the state is a counter, each
  output is the current state.
\<close>

definition counter_engine :: "(64 word) engine" where
  "counter_engine = \<lparr>seed_engine = (\<lambda>seed. seed), next_output = (\<lambda>s. (s, s + 1))\<rparr>"

definition empty_memory :: memory where
  "empty_memory = \<lparr>cells = (\<lambda>a. 0), stores = []\<rparr>"

text \<open>
  The stores the construction is meant to perform, in the words of its description: for each
  \<open>i\<close> in \<open>[0, n - 1)\<close> the address of the slot of \<open>perm[i + 1]\<close> goes into the slot of
  \<open>perm[i]\<close>, then the address of the slot of \<open>perm[0]\<close> goes into the slot of \<open>perm[n - 1]\<close>.
\<close>

definition chain_links :: "address \<Rightarrow> size_t \<Rightarrow> size_t list \<Rightarrow> nat \<Rightarrow> (address \<times> address) list" where
  "chain_links buffer stride perm n =
     map (\<lambda>i. (get_element_location buffer (perm ! i) stride,
                get_element_location buffer (perm ! (i + 1)) stride)) [0..<n - 1]
     @ [(get_element_location buffer (perm ! (n - 1)) stride,
         get_element_location buffer (perm ! 0) stride)]"

section \<open>Measurement Harness: data model\<close>

record BenchmarkResult =
  buffer_size :: size_t
  padded_element_size :: size_t
  page_size :: size_t
  num_logical_loads :: "32 word"
  cycle_count :: "64 word"
  l1d_miss_count :: "64 word"
  l2_miss_count :: "64 word"
  l3_miss_count :: "64 word"
  tlb_miss_count :: "64 word"

text \<open>
  Modelled from the spec: \<open>perf_counter.h\<close> is not among the sources. A counter handle is an
  opaque reference tagged valid or invalid when it is opened; the harness reads its file
  descriptor \<open>fd\<close> to open the followers in the leader's group.
\<close>

record perf_counter =
  fd :: int
  is_valid :: bool

definition perf_counter_is_valid :: "perf_counter \<Rightarrow> bool" where
  "perf_counter_is_valid c = is_valid c"

text \<open>
  What the harness calls but does not define is a parameter: the engine, the operating
  system's answers (\<open>sysconf(_SC_PAGESIZE)\<close>, the huge page size read from
  \<open>/proc/meminfo\<close> or the error thrown while reading it, \<open>std::aligned_alloc\<close>,
  \<open>madvise\<close> and the text of \<open>strerror(errno)\<close>) and the performance counters: the handle
  returned by the \<open>k\<close>-th call of \<open>perf_counter_open_by_name\<close> for a name and group, and
  the value returned by the \<open>t\<close>-th call of \<open>perf_counter_read\<close> for a handle.
\<close>

record 's platform =
  rng :: "'s engine"
  sysconf_pagesize :: int
  hugepage_size :: "exn + size_t"
  aligned_alloc :: "size_t \<Rightarrow> size_t \<Rightarrow> address"
  madvise :: "address \<Rightarrow> size_t \<Rightarrow> bool \<Rightarrow> int"
  strerror_errno :: string
  open_by_name :: "nat \<Rightarrow> string \<Rightarrow> int \<Rightarrow> perf_counter"
  perf_read :: "nat \<Rightarrow> perf_counter \<Rightarrow> 64 word"

text \<open>
  The effects of the harness: the memory, the lines written to \<open>std::cerr\<close>, the records
  printed by \<open>print_csv_row\<close>, the calls of \<open>std::aligned_alloc\<close> (alignment and size), the
  buffers freed, the handles opened, closed, enabled and disabled, the number of counter
  reads so far, and the entry addresses the traversal kernel was called with.
\<close>

record world =
  mem :: memory
  cerr :: "string list"
  cout :: "BenchmarkResult list"
  allocations :: "(size_t \<times> size_t) list"
  freed :: "address list"
  opened :: "perf_counter list"
  closed :: "perf_counter list"
  enabled :: "perf_counter list"
  disabled :: "perf_counter list"
  reads :: nat
  walks :: "address list"

text \<open>
  How a call of \<open>run_benchmark\<close> ends: it returns, it throws, or it divides by zero (the
  remainder \<open>buffer_size_in_bytes % padded_bytes_per_element\<close> with a zero divisor, which is
  undefined in C++ and traps on the target).
\<close>

datatype outcome = Returned world | Thrown exn world | DivisionByZero

section \<open>Measurement Harness: collaborators in \<open>common.hpp\<close>\<close>

definition get_page_size :: "'s platform \<Rightarrow> exn + size_t" where
  "get_page_size env =
     (if sysconf_pagesize env < 1 then Inl (RuntimeError ''Failed to get the page size.'')
      else Inr (word_of_int (sysconf_pagesize env)))"

definition get_hugepage_size :: "'s platform \<Rightarrow> exn + size_t" where
  "get_hugepage_size env = hugepage_size env"

definition allocate_aligned_buffer ::
  "'s platform \<Rightarrow> size_t \<Rightarrow> size_t \<Rightarrow> world \<Rightarrow> (exn + address) \<times> world" where
  "allocate_aligned_buffer env size_bytes alignment_bytes w =
     (if alignment_bytes = 0 \<or> (alignment_bytes AND (alignment_bytes - 1)) \<noteq> 0
      then (Inl (InvalidArgument ''`alignment_bytes` must be a power of 2.''), w)
      else if alignment_bytes mod 8 \<noteq> 0
      then (Inl (InvalidArgument ''`alignment_bytes` must be a multiple of 8.''), w)
      else
        (let alignment_mask = NOT (alignment_bytes - 1);
             size = (size_bytes + (alignment_bytes - 1)) AND alignment_mask;
             ptr = aligned_alloc env alignment_bytes size;
             w' = w\<lparr>allocations := allocations w @ [(alignment_bytes, size)]\<rparr>
         in if ptr = 0 then (Inl BadAlloc, w') else (Inr ptr, w')))"

section \<open>Measurement Harness: \<open>run_benchmark\<close>\<close>

text \<open>The event names of the generic build (without \<open>__znver2__\<close>).\<close>

definition CYCLES_EVENT :: string where "CYCLES_EVENT = ''CYCLES''"
definition TLB_MISS_EVENT :: string where "TLB_MISS_EVENT = ''DTLB-LOAD-MISSES''"
definition L1D_MISS_EVENT :: string where "L1D_MISS_EVENT = ''L1-DCACHE-LOAD-MISSES''"
definition L2_MISS_EVENT :: string where "L2_MISS_EVENT = ''LLC-LOAD-MISSES''"
definition L3_MISS_EVENT :: string where "L3_MISS_EVENT = ''LLC-LOAD-MISSES''"

definition NUM_LOGICAL_LOADS :: "32 word" where "NUM_LOGICAL_LOADS = 1000000"
definition NUM_TRIALS :: nat where "NUM_TRIALS = 10"
definition NUM_WARMUPS :: nat where "NUM_WARMUPS = 3"
definition RAND_SEED :: "64 word" where "RAND_SEED = 12345"

definition print_csv_row :: "BenchmarkResult \<Rightarrow> world \<Rightarrow> world" where
  "print_csv_row result w = w\<lparr>cout := cout w @ [result]\<rparr>"

definition free_buffer :: "address \<Rightarrow> world \<Rightarrow> world" where
  "free_buffer buffer w = w\<lparr>freed := freed w @ [buffer]\<rparr>"

text \<open>The lambda \<open>open_counter\<close>: open, report an invalid handle on \<open>std::cerr\<close>, return it.\<close>

definition open_counter :: "'s platform \<Rightarrow> string \<Rightarrow> int \<Rightarrow> world \<Rightarrow> perf_counter \<times> world" where
  "open_counter env name group_fd w =
     (let counter = open_by_name env (length (opened w)) name group_fd;
          w1 = w\<lparr>opened := opened w @ [counter]\<rparr>
      in if \<not> perf_counter_is_valid counter
         then (counter,
               w1\<lparr>cerr := cerr w1 @
                  [''Error: Failed to open performance counter for event '' @ [CHR 0x27] @ name
                   @ [CHR 0x27] @ ''.'']\<rparr>)
         else (counter, w1))"

definition perf_counter_close :: "perf_counter \<Rightarrow> world \<Rightarrow> world" where
  "perf_counter_close counter w = w\<lparr>closed := closed w @ [counter]\<rparr>"

text \<open>The lambda \<open>close_counter\<close>: close a handle only if it is valid.\<close>

definition close_counter :: "perf_counter \<Rightarrow> world \<Rightarrow> world" where
  "close_counter counter w =
     (if perf_counter_is_valid counter then perf_counter_close counter w else w)"

definition perf_counter_enable :: "perf_counter \<Rightarrow> world \<Rightarrow> world" where
  "perf_counter_enable counter w = w\<lparr>enabled := enabled w @ [counter]\<rparr>"

definition perf_counter_disable :: "perf_counter \<Rightarrow> world \<Rightarrow> world" where
  "perf_counter_disable counter w = w\<lparr>disabled := disabled w @ [counter]\<rparr>"

definition perf_counter_read :: "'s platform \<Rightarrow> perf_counter \<Rightarrow> world \<Rightarrow> 64 word \<times> world" where
  "perf_counter_read env counter w = (perf_read env (reads w) counter, w\<lparr>reads := Suc (reads w)\<rparr>)"

text \<open>
  The traversal kernel \<open>walk_pointer_chain\<close> (in \<open>utils.hpp\<close>, not among the sources) only
  loads from memory; the model records the call.
\<close>

definition kernel :: "address \<Rightarrow> world \<Rightarrow> world" where
  "kernel start_ptr w = w\<lparr>walks := walks w @ [start_ptr]\<rparr>"

text \<open>The five handles of one configuration, in the names of the local variables.\<close>

record counter_group =
  cycle_counter :: perf_counter
  l1d_miss_counter :: perf_counter
  l2_miss_counter :: perf_counter
  l3_miss_counter :: perf_counter
  tlb_miss_counter :: perf_counter

text \<open>
  The body of the trial loop for trial \<open>i\<close>: ten counter reads around the kernel, in the
  order of the source, then the update of the retained result.
\<close>

definition run_trial ::
  "'s platform \<Rightarrow> address \<Rightarrow> counter_group \<Rightarrow> nat \<Rightarrow> BenchmarkResult \<Rightarrow> world
   \<Rightarrow> BenchmarkResult \<times> world" where
  "run_trial env start_ptr g i result w =
     (let (start_l1d_misses, w) = perf_counter_read env (l1d_miss_counter g) w;
          (start_l2_misses, w) = perf_counter_read env (l2_miss_counter g) w;
          (start_l3_misses, w) = perf_counter_read env (l3_miss_counter g) w;
          (start_tlb_misses, w) = perf_counter_read env (tlb_miss_counter g) w;
          (start_cycles, w) = perf_counter_read env (cycle_counter g) w;
          w = kernel start_ptr w;
          (end_cycles, w) = perf_counter_read env (cycle_counter g) w;
          (end_tlb_misses, w) = perf_counter_read env (tlb_miss_counter g) w;
          (end_l3_misses, w) = perf_counter_read env (l3_miss_counter g) w;
          (end_l2_misses, w) = perf_counter_read env (l2_miss_counter g) w;
          (end_l1d_misses, w) = perf_counter_read env (l1d_miss_counter g) w;
          latency_cycles = end_cycles - start_cycles
      in if NUM_WARMUPS \<le> i \<and> latency_cycles < cycle_count result
         then (result\<lparr>cycle_count := latency_cycles,
                       l1d_miss_count := end_l1d_misses - start_l1d_misses,
                       l2_miss_count := end_l2_misses - start_l2_misses,
                       l3_miss_count := end_l3_misses - start_l3_misses,
                       tlb_miss_count := end_tlb_misses - start_tlb_misses\<rparr>, w)
         else (result, w))"

text \<open>
  The loop \<open>for (i = 0; i < NUM_WARMUPS + NUM_TRIALS; ++i)\<close>; the counter runs from 0 to 13
  and is a natural number here.
\<close>

function trial_loop ::
  "'s platform \<Rightarrow> address \<Rightarrow> counter_group \<Rightarrow> nat \<Rightarrow> BenchmarkResult \<Rightarrow> world
   \<Rightarrow> BenchmarkResult \<times> world" where
  "trial_loop env start_ptr g i result w =
     (if i < NUM_WARMUPS + NUM_TRIALS
      then (case run_trial env start_ptr g i result w of
              (result', w') \<Rightarrow> trial_loop env start_ptr g (Suc i) result' w')
      else (result, w))"
  by pat_completeness auto
termination
  by (relation "measure (\<lambda>(env, p, g, i, r, w). NUM_WARMUPS + NUM_TRIALS - i)") auto

text \<open>
  Lines 105 to 190 of \<open>run_benchmark\<close>: opening the counter group, the trials, closing and
  printing. Leaving the function frees the buffer.
\<close>

definition measure_configuration ::
  "'s platform \<Rightarrow> size_t \<Rightarrow> size_t \<Rightarrow> size_t \<Rightarrow> address \<Rightarrow> address \<Rightarrow> world \<Rightarrow> world" where
  "measure_configuration env buffer_size_in_bytes padded_bytes_per_element page_sz buffer
     start_ptr w =
     (let (cycle, w) = open_counter env CYCLES_EVENT (- 1) w
      in if \<not> perf_counter_is_valid cycle then free_buffer buffer w
         else
           (let group_fd = fd cycle;
                (l1d, w) = open_counter env L1D_MISS_EVENT group_fd w;
                (l2, w) = open_counter env L2_MISS_EVENT group_fd w;
                (l3, w) = open_counter env L3_MISS_EVENT group_fd w;
                (tlb, w) = open_counter env TLB_MISS_EVENT group_fd w
            in if \<not> perf_counter_is_valid l1d \<or> \<not> perf_counter_is_valid l2
                  \<or> \<not> perf_counter_is_valid l3 \<or> \<not> perf_counter_is_valid tlb
               then
                 (let w = close_counter l1d w;
                      w = close_counter l2 w;
                      w = close_counter l3 w;
                      w = close_counter tlb w;
                      w = close_counter cycle w
                  in free_buffer buffer w)
               else
                 (let w = perf_counter_enable cycle w;
                      result = \<lparr>buffer_size = buffer_size_in_bytes,
                                padded_element_size = padded_bytes_per_element,
                                page_size = page_sz,
                                num_logical_loads = NUM_LOGICAL_LOADS,
                                cycle_count = - 1,
                                l1d_miss_count = 0, l2_miss_count = 0,
                                l3_miss_count = 0, tlb_miss_count = 0\<rparr>;
                      g = \<lparr>cycle_counter = cycle, l1d_miss_counter = l1d,
                           l2_miss_counter = l2, l3_miss_counter = l3,
                           tlb_miss_counter = tlb\<rparr>;
                      (result, w) = trial_loop env start_ptr g 0 result w;
                      w = perf_counter_disable cycle w;
                      w = perf_counter_close tlb w;
                      w = perf_counter_close l3 w;
                      w = perf_counter_close l2 w;
                      w = perf_counter_close l1d w;
                      w = perf_counter_close cycle w;
                      w = print_csv_row result w
                  in free_buffer buffer w)))"

definition msg_not_multiple :: string where
  "msg_not_multiple =
     ''Error: `buffer_size_in_bytes` must be a multiple of `padded_bytes_per_element`''"

definition run_benchmark :: "'s platform \<Rightarrow> size_t \<Rightarrow> size_t \<Rightarrow> bool \<Rightarrow> world \<Rightarrow> outcome" where
  "run_benchmark env buffer_size_in_bytes padded_bytes_per_element use_hugepage w =
     (if padded_bytes_per_element = 0 then DivisionByZero
      else if buffer_size_in_bytes mod padded_bytes_per_element \<noteq> 0
      then Returned (w\<lparr>cerr := cerr w @ [msg_not_multiple]\<rparr>)
      else
        (let num_elements = buffer_size_in_bytes div padded_bytes_per_element
         in case (if use_hugepage then get_hugepage_size env else get_page_size env) of
              Inl e \<Rightarrow> Thrown e w
            | Inr page_sz \<Rightarrow>
                (case allocate_aligned_buffer env buffer_size_in_bytes page_sz w of
                   (Inl e, w) \<Rightarrow> Thrown e w
                 | (Inr buffer, w) \<Rightarrow>
                     (let w = (if madvise env buffer buffer_size_in_bytes use_hugepage \<noteq> 0
                               then w\<lparr>cerr := cerr w @
                                      [(if use_hugepage
                                        then ''Warning: madvise(MADV_HUGEPAGE) failed: ''
                                        else ''Warning: madvise(MADV_NOHUGEPAGE) failed: '')
                                       @ strerror_errno env]\<rparr>
                               else w)
                      in case generate_random_pointer_chasing (rng env) buffer num_elements
                                padded_bytes_per_element RAND_SEED (mem w) of
                           Inl e \<Rightarrow> Thrown e (free_buffer buffer w)
                         | Inr (start_ptr, m') \<Rightarrow>
                             Returned (measure_configuration env buffer_size_in_bytes
                               padded_bytes_per_element page_sz buffer start_ptr
                               (w\<lparr>mem := m'\<rparr>))))))"

text \<open>
  The cycle delta and the miss deltas of the trial whose first counter read is read number
  \<open>t\<close>: end reading minus start reading, at the positions the loop body reads them.
\<close>

definition cycles_delta :: "'s platform \<Rightarrow> counter_group \<Rightarrow> nat \<Rightarrow> 64 word" where
  "cycles_delta env g t =
     perf_read env (t + 5) (cycle_counter g) - perf_read env (t + 4) (cycle_counter g)"

definition l1d_delta :: "'s platform \<Rightarrow> counter_group \<Rightarrow> nat \<Rightarrow> 64 word" where
  "l1d_delta env g t =
     perf_read env (t + 9) (l1d_miss_counter g) - perf_read env t (l1d_miss_counter g)"

definition l2_delta :: "'s platform \<Rightarrow> counter_group \<Rightarrow> nat \<Rightarrow> 64 word" where
  "l2_delta env g t =
     perf_read env (t + 8) (l2_miss_counter g) - perf_read env (t + 1) (l2_miss_counter g)"

definition l3_delta :: "'s platform \<Rightarrow> counter_group \<Rightarrow> nat \<Rightarrow> 64 word" where
  "l3_delta env g t =
     perf_read env (t + 7) (l3_miss_counter g) - perf_read env (t + 2) (l3_miss_counter g)"

definition tlb_delta :: "'s platform \<Rightarrow> counter_group \<Rightarrow> nat \<Rightarrow> 64 word" where
  "tlb_delta env g t =
     perf_read env (t + 6) (tlb_miss_counter g) - perf_read env (t + 3) (tlb_miss_counter g)"

text \<open>
  The record retained when trial \<open>j\<close> is the selected one: the initial record with the cycle
  delta and the four miss deltas of that trial. The first read of trial \<open>j\<close> is read number
  \<open>t0 + 10 * j\<close>, where \<open>t0\<close> counts the reads before the loop.
\<close>

definition retained ::
  "'s platform \<Rightarrow> counter_group \<Rightarrow> nat \<Rightarrow> nat \<Rightarrow> BenchmarkResult \<Rightarrow> BenchmarkResult" where
  "retained env g t0 j r0 =
     r0\<lparr>cycle_count := cycles_delta env g (t0 + 10 * j),
        l1d_miss_count := l1d_delta env g (t0 + 10 * j),
        l2_miss_count := l2_delta env g (t0 + 10 * j),
        l3_miss_count := l3_delta env g (t0 + 10 * j),
        tlb_miss_count := tlb_delta env g (t0 + 10 * j)\<rparr>"

text \<open>
  A platform for running the model on concrete inputs: pages of 4096 bytes, huge pages of
  2 MiB, every allocation at address 65536, \<open>madvise\<close> succeeding; the counters are given by
  the two arguments.
\<close>

definition test_platform ::
  "(nat \<Rightarrow> string \<Rightarrow> int \<Rightarrow> perf_counter) \<Rightarrow> (nat \<Rightarrow> perf_counter \<Rightarrow> 64 word)
   \<Rightarrow> (64 word) platform" where
  "test_platform openf readf =
     \<lparr>rng = counter_engine, sysconf_pagesize = 4096, hugepage_size = Inr 2097152,
      aligned_alloc = (\<lambda>alignment size. 65536), madvise = (\<lambda>p n h. 0), strerror_errno = [],
      open_by_name = openf, perf_read = readf\<rparr>"

definition empty_world :: world where
  "empty_world =
     \<lparr>mem = empty_memory, cerr = [], cout = [], allocations = [], freed = [], opened = [],
      closed = [], enabled = [], disabled = [], reads = 0, walks = []\<rparr>"

text \<open>Five valid handles with the descriptors 3 to 7.\<close>

definition test_group :: counter_group where
  "test_group =
     \<lparr>cycle_counter = \<lparr>fd = 3, is_valid = True\<rparr>,
      l1d_miss_counter = \<lparr>fd = 4, is_valid = True\<rparr>,
      l2_miss_counter = \<lparr>fd = 5, is_valid = True\<rparr>,
      l3_miss_counter = \<lparr>fd = 6, is_valid = True\<rparr>,
      tlb_miss_counter = \<lparr>fd = 7, is_valid = True\<rparr>\<rparr>"

text \<open>
  Synthetic readings of counters that only advance while the kernel runs. During trial \<open>i\<close>
  the cycle counter (descriptor 3) advances by the \<open>i\<close>-th entry of the list and a miss
  counter with descriptor \<open>d\<close> by \<open>100 * d + i\<close>. The kernel of trial \<open>i\<close> runs between the
  reads number \<open>10 * i + 4\<close> and \<open>10 * i + 5\<close>, and read number \<open>t\<close> shows the sum of the
  advances made before it.
\<close>

definition advance :: "nat list \<Rightarrow> perf_counter \<Rightarrow> nat \<Rightarrow> nat" where
  "advance ds c i = (if fd c = 3 then ds ! i else 100 * nat (fd c) + i)"

definition synthetic_read :: "nat list \<Rightarrow> nat \<Rightarrow> perf_counter \<Rightarrow> 64 word" where
  "synthetic_read ds t c =
     of_nat (sum_list (map (\<lambda>i. if 10 * i + 4 < t then advance ds c i else 0) [0..<length ds]))"

text \<open>
  Readings for runs that end before any counter is read: the cycle counter shows 1 and then 0
  within each trial, the miss counters 0 and then 5.
\<close>

definition saturated_read :: "nat \<Rightarrow> perf_counter \<Rightarrow> 64 word" where
  "saturated_read t c =
     (if fd c = 3 then (if t mod 10 < 5 then 1 else 0) else (if t mod 10 < 5 then 0 else 5))"

text \<open>
  Opening for the test platform: the \<open>k\<close>-th call returns the descriptor \<open>k + 3\<close>, invalid
  for the call numbers listed in \<open>bad\<close>.
\<close>

definition test_open :: "nat list \<Rightarrow> nat \<Rightarrow> string \<Rightarrow> int \<Rightarrow> perf_counter" where
  "test_open bad k name group_fd = \<lparr>fd = int k + 3, is_valid = (k \<notin> set bad)\<rparr>"

section \<open>Chain Builder: the permutation\<close>

declare shuffle_loop.simps [simp del]
declare link_loop.simps [simp del]

lemma uniform_index_le: "uniform_index E b s = (j, s') \<Longrightarrow> j \<le> b"
  by (auto simp: uniform_index_def split: prod.splits simp: less_Suc_eq_le[symmetric])

lemma length_shuffle_loop: "length (shuffle_loop E i xs s) = length xs"
proof (induction E i xs s rule: shuffle_loop.induct)
  case (1 E i xs s)
  show ?case
  proof (cases "i < length xs")
    case True
    obtain j s' where u: "uniform_index E i s = (j, s')" by (cases "uniform_index E i s")
    from "1.IH"[OF True u[symmetric]] True u show ?thesis
      by (subst shuffle_loop.simps) simp
  next
    case False
    then show ?thesis by (subst shuffle_loop.simps) simp
  qed
qed

text \<open>Every step of the shuffle is a swap of two positions in range, so the elements stay.\<close>

lemma mset_shuffle_loop: "mset (shuffle_loop E i xs s) = mset xs"
proof (induction E i xs s rule: shuffle_loop.induct)
  case (1 E i xs s)
  show ?case
  proof (cases "i < length xs")
    case True
    obtain j s' where u: "uniform_index E i s = (j, s')" by (cases "uniform_index E i s")
    have j: "j < length xs" using uniform_index_le[OF u] True by simp
    have "mset (xs[i := xs ! j, j := xs ! i]) = mset xs"
      using True j by (simp add: mset_swap)
    with "1.IH"[OF True u[symmetric]] True u show ?thesis
      by (subst shuffle_loop.simps) simp
  next
    case False
    then show ?thesis by (subst shuffle_loop.simps) simp
  qed
qed

lemma iota_eq: "iota k v = map (\<lambda>j. scast (v + of_nat j)) [0..<k]"
proof (induction k arbitrary: v)
  case 0
  show ?case by simp
next
  case (Suc k)
  have "[0..<Suc k] = 0 # map Suc [0..<k]"
    by (simp add: upt_conv_Cons map_Suc_upt del: upt_Suc)
  then show ?case
    by (simp add: Suc.IH comp_def ac_simps del: upt_Suc)
qed

lemma length_iota: "length (iota k v) = k"
  by (simp add: iota_eq)

lemma scast_small:
  assumes "j < 2 ^ 31"
  shows "(scast (of_nat j :: 32 word) :: 64 word) = of_nat j"
proof -
  have "sint (word_of_int (int j) :: 32 word) = (int j + 2 ^ 31) mod 2 ^ 32 - 2 ^ 31"
    by (simp only: int_word_sint) simp
  also have "\<dots> = int j" using assms by simp
  finally have "sint (of_nat j :: 32 word) = int j" by simp
  then show ?thesis
    by (simp add: scast_eq)
qed

text \<open>Up to \<open>INT_MAX\<close> elements the counter does not overflow and the fill is \<open>0, 1, \<dots>, k - 1\<close>.\<close>

lemma iota_no_overflow:
  assumes "k \<le> 2 ^ 31"
  shows "iota k 0 = map of_nat [0..<k]"
  unfolding iota_eq using assms by (auto simp: scast_small)

lemma length_generate_random_permutation:
  "length (generate_random_permutation E n seed) = unat n"
  by (simp add: generate_random_permutation_def Let_def length_shuffle_loop length_iota)

lemma mset_generate_random_permutation:
  "mset (generate_random_permutation E n seed) = mset (iota (unat n) 0)"
  by (simp add: generate_random_permutation_def Let_def mset_shuffle_loop)

lemma unat_of_nat_small: "x < 2 ^ 64 \<Longrightarrow> unat (of_nat x :: 64 word) = x"
  by (simp add: unat_of_nat)

lemma unat_lt64: "unat (n :: 64 word) < 2 ^ 64"
  using unsigned_less[of n, where 'a = nat] by simp

lemma distinct_word_upto: "distinct (map (of_nat :: nat \<Rightarrow> 64 word) [0..<unat (n :: 64 word)])"
proof -
  have "inj_on (of_nat :: nat \<Rightarrow> 64 word) {0..<unat n}"
  proof (rule inj_onI)
    fix x y assume x: "x \<in> {0..<unat n}" and y: "y \<in> {0..<unat n}"
      and eq: "(of_nat x :: 64 word) = of_nat y"
    have "x < 2 ^ 64" using x unat_lt64[of n] by simp
    moreover have "y < 2 ^ 64" using y unat_lt64[of n] by simp
    ultimately have ux: "unat (of_nat x :: 64 word) = x" and uy: "unat (of_nat y :: 64 word) = y"
      by (simp_all only: unat_of_nat_small)
    from eq have "unat (of_nat x :: 64 word) = unat (of_nat y :: 64 word)"
      by (rule arg_cong)
    then show "x = y" by (simp only: ux uy)
  qed
  moreover have "distinct [0..<unat n]" by simp
  moreover have "set [0..<unat n] = {0..<unat n}" by simp
  ultimately show ?thesis by (simp only: distinct_map simp_thms)
qed

lemma set_word_upto: "set (map of_nat [0..<unat (n :: 64 word)]) = {w :: 64 word. w < n}"
proof (rule set_eqI)
  fix w :: "64 word"
  show "w \<in> set (map of_nat [0..<unat n]) \<longleftrightarrow> w \<in> {w. w < n}"
  proof
    assume "w \<in> set (map of_nat [0..<unat n])"
    then obtain j where j: "j < unat n" and w: "w = of_nat j" by auto
    have "j < 2 ^ 64" using j unat_lt64[of n] by simp
    then have "unat w = j" unfolding w by (rule unat_of_nat_small)
    with j show "w \<in> {w. w < n}" by (simp add: word_less_nat_alt)
  next
    assume "w \<in> {w. w < n}"
    then have "unat w < unat n" by (simp add: word_less_nat_alt)
    moreover have "w = of_nat (unat w)" by simp
    ultimately show "w \<in> set (map of_nat [0..<unat n])"
      by (metis (no_types) atLeastLessThan_iff image_eqI le0 set_map set_upt)
  qed
qed

text \<open>
  Below \<open>2^31\<close> elements the result is a permutation of \<open>0, \<dots>, n - 1\<close>, whatever the
  engine draws.
\<close>

lemma permutation_bijection:
  assumes "unat n < 2 ^ 31"
  shows "distinct (generate_random_permutation E n seed)"
    and "set (generate_random_permutation E n seed) = {w. w < n}"
proof -
  have m: "mset (generate_random_permutation E n seed) = mset (map of_nat [0..<unat n])"
    using assms by (simp add: mset_generate_random_permutation iota_no_overflow)
  from mset_eq_imp_distinct_iff[OF m] distinct_word_upto[of n]
  show "distinct (generate_random_permutation E n seed)" by simp
  from mset_eq_setD[OF m] set_word_upto[of n]
  show "set (generate_random_permutation E n seed) = {w. w < n}" by simp
qed

section \<open>Chain Builder: the stores\<close>

lemma apply_stores_append: "apply_stores (ws @ vs) c = apply_stores vs (apply_stores ws c)"
  by (induction ws arbitrary: c) auto

text \<open>The loop from counter \<open>i\<close> on performs the stores for the positions \<open>i, \<dots>, n - 2\<close>.\<close>

lemma link_loop_eq:
  "link_loop b s idx n i m =
     \<lparr>cells = apply_stores (map (\<lambda>k. (get_element_location b (idx ! k) s,
                                       get_element_location b (idx ! (k + 1)) s)) [i..<unat (n - 1)])
                (cells m),
      stores = stores m @ map (\<lambda>k. (get_element_location b (idx ! k) s,
                                      get_element_location b (idx ! (k + 1)) s)) [i..<unat (n - 1)]\<rparr>"
proof (induction b s idx n i m rule: link_loop.induct)
  case (1 b s idx n i m)
  show ?case
  proof (cases "i < unat (n - 1)")
    case True
    have u: "[i..<unat (n - 1)] = i # [Suc i..<unat (n - 1)]"
      using True by (simp add: upt_conv_Cons)
    show ?thesis
      apply (subst link_loop.simps)
      apply (simp only: True if_True Let_def "1.IH"[OF True refl refl])
      apply (simp add: u store_def)
      done
  next
    case False
    then show ?thesis by (subst link_loop.simps) simp
  qed
qed

lemma unat_minus_one_nonzero: "n \<noteq> 0 \<Longrightarrow> unat (n - 1 :: 64 word) = unat n - 1"
  by (simp add: unat_minus_one)

text \<open>When every check passes, the call performs exactly the stores of \<open>chain_links\<close>.\<close>

lemma chain_builder_result:
  assumes "buffer \<noteq> 0" "num_elements \<noteq> 0" "buffer mod pointer_align = 0"
    "stride mod pointer_align = 0" "pointer_size \<le> stride"
  shows "generate_random_pointer_chasing E buffer num_elements stride seed m =
     Inr (get_element_location buffer (generate_random_permutation E num_elements seed ! 0) stride,
          \<lparr>cells = apply_stores
                     (chain_links buffer stride (generate_random_permutation E num_elements seed)
                        (unat num_elements))
                     (cells m),
           stores = stores m @
                     chain_links buffer stride (generate_random_permutation E num_elements seed)
                       (unat num_elements)\<rparr>)"
  using assms
  by (simp add: generate_random_pointer_chasing_def Let_def link_loop_eq store_def chain_links_def
      unat_minus_one_nonzero apply_stores_append not_less)

section \<open>Chain Builder: traversal\<close>

lemma apply_stores_notin: "a \<notin> fst ` set ws \<Longrightarrow> apply_stores ws c a = c a"
  by (induction ws arbitrary: c) auto

text \<open>With pairwise different store addresses, each cell holds the value stored to it.\<close>

lemma apply_stores_distinct:
  "distinct (map fst ws) \<Longrightarrow> (a, v) \<in> set ws \<Longrightarrow> apply_stores ws c a = v"
proof (induction ws arbitrary: c)
  case Nil
  then show ?case by simp
next
  case (Cons w ws)
  obtain a' v' where w: "w = (a', v')" by (cases w)
  show ?case
  proof (cases "(a, v) = w")
    case True
    with Cons.prems w have "a \<notin> fst ` set ws" by auto
    with True w show ?thesis by (simp add: apply_stores_notin)
  next
    case False
    with Cons w show ?thesis by auto
  qed
qed

text \<open>
  The links in one formula: position \<open>i\<close> points to position \<open>(i + 1) mod n\<close>.
\<close>

lemma chain_links_cyclic:
  assumes "0 < n"
  shows "chain_links b s perm n =
     map (\<lambda>i. (get_element_location b (perm ! i) s,
                get_element_location b (perm ! (Suc i mod n)) s)) [0..<n]"
proof -
  obtain k where n: "n = Suc k" using assms by (cases n) auto
  show ?thesis by (simp add: chain_links_def n)
qed

text \<open>
  Slot addresses of different indices below \<open>n\<close> differ when \<open>n\<close> slots of the stride fit into
  the 64-bit address space, so that \<open>index * stride\<close> does not wrap.
\<close>

lemma get_element_location_inj:
  assumes fit: "unat n * unat s \<le> 2 ^ 64" and s: "s \<noteq> 0"
    and i: "i < n" and j: "j < n"
    and eq: "get_element_location b i s = get_element_location b j s"
  shows "i = j"
proof -
  have s0: "0 < unat s" using s by (simp add: unat_gt_0)
  have "unat i < unat n" "unat j < unat n" using i j by (simp_all add: word_less_nat_alt)
  then have "unat i * unat s < unat n * unat s" "unat j * unat s < unat n * unat s"
    using s0 by simp_all
  then have "unat i * unat s < 2 ^ 64" "unat j * unat s < 2 ^ 64"
    using fit by linarith+
  then have "unat i * unat s < 2 ^ LENGTH(64)" "unat j * unat s < 2 ^ LENGTH(64)"
    by simp_all
  then have ui: "unat (i * s) = unat i * unat s" and uj: "unat (j * s) = unat j * unat s"
    by (simp_all only: unat_mult_lem[symmetric])
  from eq have "i * s = j * s" by (simp add: get_element_location_def)
  then have "unat (i * s) = unat (j * s)" by simp
  then have "unat i * unat s = unat j * unat s" by (simp only: ui uj)
  then have "unat i = unat j" using s0 by simp
  then show ?thesis by (simp add: word_unat_eq_iff)
qed

lemma follow_chain:
  assumes n: "0 < n" and len: "length perm = n"
    and dist: "distinct (map (\<lambda>x. get_element_location b x s) perm)"
    and c: "c' = apply_stores (chain_links b s perm n) c"
    and j: "j < n"
  shows "follow \<lparr>cells = c', stores = st\<rparr> (get_element_location b (perm ! j) s) k =
         get_element_location b (perm ! ((j + k) mod n)) s"
  using j
proof (induction k arbitrary: j)
  case 0
  then show ?case by simp
next
  case (Suc k)
  let ?W = "chain_links b s perm n"
  have W: "?W = map (\<lambda>i. (get_element_location b (perm ! i) s,
                get_element_location b (perm ! (Suc i mod n)) s)) [0..<n]"
    by (rule chain_links_cyclic[OF n])
  have "map fst ?W = map (\<lambda>i. get_element_location b (perm ! i) s) [0..<n]"
    by (simp add: W comp_def)
  also have "\<dots> = map (\<lambda>x. get_element_location b x s) perm"
    using len by (simp add: list_eq_iff_nth_eq)
  finally have d: "distinct (map fst ?W)" using dist by simp
  have "(get_element_location b (perm ! j) s, get_element_location b (perm ! (Suc j mod n)) s)
        \<in> set ?W"
    unfolding W using Suc.prems by auto
  from apply_stores_distinct[OF d this]
  have step: "c' (get_element_location b (perm ! j) s) =
              get_element_location b (perm ! (Suc j mod n)) s"
    by (simp add: c)
  have "Suc j mod n < n" using n by simp
  from Suc.IH[OF this] step show ?case
    by (simp add: mod_simps)
qed

section \<open>Chain Builder: independence of the base address\<close>

text \<open>The links at base \<open>b\<close> are the links at base 0, shifted by \<open>b\<close>.\<close>

lemma chain_links_translate:
  "chain_links b s perm n = map (\<lambda>(a, v). (b + a, b + v)) (chain_links 0 s perm n)"
  by (simp add: chain_links_def get_element_location_def)

lemma apply_stores_translate:
  "x \<in> fst ` set ws \<Longrightarrow>
   apply_stores (map (\<lambda>(a, v). (b + a, b + v)) ws) c (b + x) = b + apply_stores ws c' x"
proof (induction ws arbitrary: c c')
  case Nil
  then show ?case by simp
next
  case (Cons w ws)
  obtain a v where w: "w = (a, v)" by (cases w)
  show ?case
  proof (cases "x \<in> fst ` set ws")
    case True
    from Cons.IH[OF True] show ?thesis by (simp add: w)
  next
    case False
    with Cons.prems w have xa: "x = a" by auto
    have "b + x \<notin> fst ` set (map (\<lambda>(a, v). (b + a, b + v)) ws)"
      using False by (auto simp: image_iff)
    then have "apply_stores (map (\<lambda>(a, v). (b + a, b + v)) ws) (c(b + a := b + v)) (b + x)
               = (c(b + a := b + v)) (b + x)"
      by (rule apply_stores_notin)
    moreover have "apply_stores ws (c'(a := v)) x = (c'(a := v)) x"
      using False by (rule apply_stores_notin)
    ultimately show ?thesis by (simp add: w xa)
  qed
qed

lemma apply_stores_in_values:
  "x \<in> fst ` set ws \<Longrightarrow> apply_stores ws c x \<in> snd ` set ws"
proof (induction ws arbitrary: c)
  case Nil
  then show ?case by simp
next
  case (Cons w ws)
  obtain a v where w: "w = (a, v)" by (cases w)
  show ?case
  proof (cases "x \<in> fst ` set ws")
    case True
    from Cons.IH[OF True] show ?thesis by (simp add: w)
  next
    case False
    with Cons.prems w have xa: "x = a" by auto
    have "apply_stores ws (c(a := v)) x = (c(a := v)) x"
      using False by (rule apply_stores_notin)
    then show ?thesis by (simp add: w xa)
  qed
qed

text \<open>Every address stored by the construction is itself the address of a linked slot.\<close>

lemma chain_links_closed:
  assumes "0 < n"
  shows "snd ` set (chain_links b s perm n) \<subseteq> fst ` set (chain_links b s perm n)"
proof
  fix y assume "y \<in> snd ` set (chain_links b s perm n)"
  then obtain i where i: "i < n" and y: "y = get_element_location b (perm ! (Suc i mod n)) s"
    unfolding chain_links_cyclic[OF assms] by auto
  have "Suc i mod n < n" using assms by simp
  then have "(get_element_location b (perm ! (Suc i mod n)) s,
              get_element_location b (perm ! (Suc (Suc i mod n) mod n)) s)
             \<in> set (chain_links b s perm n)"
    unfolding chain_links_cyclic[OF assms] by auto
  then show "y \<in> fst ` set (chain_links b s perm n)"
    unfolding y by (metis fst_conv image_eqI)
qed

lemma follow_translate:
  assumes closed: "snd ` set ws \<subseteq> fst ` set ws" and x: "x \<in> fst ` set ws"
  shows "follow \<lparr>cells = apply_stores (map (\<lambda>(a, v). (b + a, b + v)) ws) c, stores = st\<rparr>
           (b + x) k
         = b + follow \<lparr>cells = apply_stores ws (\<lambda>a. 0), stores = []\<rparr> x k"
  using x
proof (induction k arbitrary: x)
  case 0
  then show ?case by simp
next
  case (Suc k)
  have "apply_stores ws (\<lambda>a. 0) x \<in> fst ` set ws"
    using apply_stores_in_values[OF Suc.prems] closed by blast
  from Suc.IH[OF this] show ?case
    by (simp add: apply_stores_translate[OF Suc.prems, where c' = "\<lambda>a. 0"])
qed

text \<open>The traversal stays among the addresses of the linked slots.\<close>

lemma follow_in_links:
  assumes closed: "snd ` set ws \<subseteq> fst ` set ws" and x: "x \<in> fst ` set ws"
  shows "follow \<lparr>cells = apply_stores ws c, stores = st\<rparr> x k \<in> fst ` set ws"
  using x
proof (induction k arbitrary: x)
  case 0
  then show ?case by simp
next
  case (Suc k)
  have "apply_stores ws c x \<in> fst ` set ws"
    using apply_stores_in_values[OF Suc.prems] closed by blast
  from Suc.IH[OF this] show ?case by simp
qed

text \<open>
  With \<open>2^31 + 1\<close> elements the index vector holds the sign extensions of the 32-bit counter
  values \<open>0, \<dots>, 2^31\<close>.
\<close>

lemma permutation_overflow_set:
  "set (generate_random_permutation E 2147483649 seed)
   = (\<lambda>j. scast (of_nat j :: 32 word) :: 64 word) ` {0..<2147483649}"
proof -
  have "set (generate_random_permutation E 2147483649 seed)
        = set (iota (unat (2147483649 :: 64 word)) 0)"
    using mset_eq_setD[OF mset_generate_random_permutation] by blast
  also have "\<dots> = (\<lambda>j. scast (of_nat j :: 32 word)) ` {0..<2147483649}"
    by (simp add: iota_eq)
  finally show ?thesis .
qed

section \<open>Chain Builder: the claims\<close>

text \<open>
  The single cycle. For a non-null aligned buffer, a valid stride, a count below \<open>2^31\<close>
  (the range in which the index fill does not overflow its counter) and slots that fit into
  the address space (\<open>num_elements * stride \<le> 2^64\<close>, as for every buffer that exists),
  following the stored pointer from the returned entry address \<open>num_elements\<close> times returns
  to the entry address and no earlier step does.
\<close>

lemma chain_single_cycle_in_range:
  assumes "buffer \<noteq> 0" and "buffer mod pointer_align = 0" and "num_elements \<noteq> 0"
    and "stride mod pointer_align = 0" and "pointer_size \<le> stride"
    and "unat num_elements < 2 ^ 31"
    and "unat num_elements * unat stride \<le> 2 ^ 64"
  shows "\<exists>entry m'.
           generate_random_pointer_chasing E buffer num_elements stride seed m = Inr (entry, m')
           \<and> follow m' entry (unat num_elements) = entry
           \<and> (\<forall>k. 0 < k \<and> k < unat num_elements \<longrightarrow> follow m' entry k \<noteq> entry)"
proof -
  let ?perm = "generate_random_permutation E num_elements seed"
  let ?n = "unat num_elements"
  let ?loc = "\<lambda>x. get_element_location buffer x stride"
  let ?W = "chain_links buffer stride ?perm ?n"
  let ?m' = "\<lparr>cells = apply_stores ?W (cells m), stores = stores m @ ?W\<rparr>"
  have n: "0 < ?n" using assms(3) by (simp add: unat_gt_0)
  have len: "length ?perm = ?n" by (rule length_generate_random_permutation)
  have s: "stride \<noteq> 0" using assms(5) by (auto simp: pointer_size_def)
  have dperm: "distinct ?perm" and sperm: "set ?perm = {w. w < num_elements}"
    using permutation_bijection[OF assms(6)] by blast+
  have "inj_on ?loc (set ?perm)"
  proof (rule inj_onI)
    fix x y assume "x \<in> set ?perm" "y \<in> set ?perm" "?loc x = ?loc y"
    then show "x = y"
      using get_element_location_inj[OF assms(7) s] sperm by blast
  qed
  with dperm have dist: "distinct (map ?loc ?perm)" by (simp add: distinct_map)
  have res: "generate_random_pointer_chasing E buffer num_elements stride seed m =
             Inr (?loc (?perm ! 0), ?m')"
    by (rule chain_builder_result[OF assms(1) assms(3) assms(2) assms(4) assms(5)])
  have walk: "follow ?m' (?loc (?perm ! 0)) k = ?loc (?perm ! (k mod ?n))" for k
    using follow_chain[OF n len dist refl n] by simp
  have returns: "follow ?m' (?loc (?perm ! 0)) ?n = ?loc (?perm ! 0)"
    using walk[of "unat num_elements"] by simp
  have early: "follow ?m' (?loc (?perm ! 0)) k \<noteq> ?loc (?perm ! 0)" if "0 < k" "k < ?n" for k
  proof -
    have "map ?loc ?perm ! k \<noteq> map ?loc ?perm ! 0"
      using dist that n len by (simp add: nth_eq_iff_index_eq del: nth_map)
    then have "?loc (?perm ! k) \<noteq> ?loc (?perm ! 0)"
      using that n len by simp
    then show ?thesis using walk[of k] that by simp
  qed
  from res returns early show ?thesis by blast
qed

text \<open>
  C2. The claim asks for a single cycle covering all slots for every count of at least one.
  With \<open>2^31 + 1\<close> elements of stride 8 in a buffer at \<open>2^40\<close> (16 GiB and 8 bytes, well inside
  the address space), the index vector contains the sign-extended \<open>INT_MIN\<close> left by the
  overflowing counter of the fill in place of the index \<open>2^31\<close>. So, for every engine, seed
  and prior memory: the call stores a pointer through the address computed for that element,
  which lies below the buffer, and the traversal from the returned entry address never
  reaches the slot of index \<open>2^31\<close>.
\<close>

theorem chain_misses_slot_on_counter_overflow:
  "\<exists>entry m'.
     generate_random_pointer_chasing E 0x10000000000 2147483649 8 seed m = Inr (entry, m')
     \<and> (\<forall>k. follow m' entry k \<noteq> get_element_location 0x10000000000 2147483648 8)
     \<and> get_element_location 0x10000000000 0xFFFFFFFF80000000 8
           \<in> fst ` set (drop (length (stores m)) (stores m'))
     \<and> get_element_location 0x10000000000 0xFFFFFFFF80000000 8 < 0x10000000000
     \<and> unat (0x10000000000 :: 64 word) + unat (2147483649 :: 64 word) * unat (8 :: 64 word)
           \<le> 2 ^ 64"
proof -
  let ?B = "0x10000000000 :: 64 word"
  let ?N = "2147483649 :: 64 word"
  let ?perm = "generate_random_permutation E ?N seed"
  let ?n = "unat ?N"
  let ?loc = "\<lambda>x. get_element_location ?B x 8"
  let ?W = "chain_links ?B 8 ?perm ?n"
  let ?m' = "\<lparr>cells = apply_stores ?W (cells m), stores = stores m @ ?W\<rparr>"
  have n: "0 < ?n" by simp
  have len: "length ?perm = ?n" by (rule length_generate_random_permutation)
  have res: "generate_random_pointer_chasing E ?B ?N 8 seed m = Inr (?loc (?perm ! 0), ?m')"
    by (rule chain_builder_result) (simp_all add: pointer_align_def pointer_size_def)
  have W: "?W = map (\<lambda>i. (?loc (?perm ! i), ?loc (?perm ! (Suc i mod ?n)))) [0..<?n]"
    by (rule chain_links_cyclic[OF n])
  have "map fst ?W = map (\<lambda>i. ?loc (?perm ! i)) [0..<?n]"
    by (simp only: W map_map comp_def fst_conv)
  also have "\<dots> = map ?loc ?perm"
    using len by (simp only: list_eq_iff_nth_eq) simp
  finally have "set (map fst ?W) = set (map ?loc ?perm)" by (rule arg_cong)
  then have addrs: "fst ` set ?W = ?loc ` set ?perm" by (simp only: set_map)
  have closed: "snd ` set ?W \<subseteq> fst ` set ?W" by (rule chain_links_closed[OF n])
  have "?perm ! 0 \<in> set ?perm" using n len by (simp only: nth_mem)
  then have start: "?loc (?perm ! 0) \<in> fst ` set ?W" unfolding addrs by (rule imageI)
  have stay: "follow ?m' (?loc (?perm ! 0)) k \<in> fst ` set ?W" for k
    by (rule follow_in_links[OF closed start])
  have missing: "?loc 2147483648 \<notin> ?loc ` set ?perm"
  proof
    assume "?loc 2147483648 \<in> ?loc ` set ?perm"
    then obtain x where x: "x \<in> set ?perm" and eq: "?loc 2147483648 = ?loc x" by blast
    from x obtain j where j: "j < 2147483649" and xj: "x = scast (of_nat j :: 32 word)"
      unfolding permutation_overflow_set by auto
    show False
    proof (cases "j < 2147483648")
      case True
      then have xs: "x = of_nat j" unfolding xj by (simp add: scast_small)
      have jl: "j < 2 ^ 64" using True by simp
      have uj: "unat (of_nat j :: 64 word) = j" by (rule unat_of_nat_small[OF jl])
      have fit: "unat ?N * unat (8 :: 64 word) \<le> 2 ^ 64" by simp
      have "x < ?N" unfolding xs using True uj by (simp add: word_less_nat_alt)
      moreover have "(2147483648 :: 64 word) < ?N" by simp
      ultimately have "2147483648 = x"
        using get_element_location_inj[OF fit _ _ _ eq] by simp
      then have "unat (2147483648 :: 64 word) = j" unfolding xs using uj by simp
      with True show False by simp
    next
      case False
      with j have "j = 2147483648" by simp
      then have "x = 0xFFFFFFFF80000000" unfolding xj by simp
      with eq show False by (simp add: get_element_location_def)
    qed
  qed
  have never: "follow ?m' (?loc (?perm ! 0)) k \<noteq> ?loc 2147483648" for k
    using stay[of k] missing unfolding addrs by metis
  have "0xFFFFFFFF80000000 \<in> set ?perm"
    unfolding permutation_overflow_set by (rule image_eqI[where x = 2147483648]) simp_all
  then have "?loc 0xFFFFFFFF80000000 \<in> fst ` set ?W" unfolding addrs by (rule imageI)
  then have out: "?loc 0xFFFFFFFF80000000 \<in> fst ` set (drop (length (stores m)) (stores ?m'))"
    by simp
  have below: "?loc 0xFFFFFFFF80000000 < ?B" by (simp add: get_element_location_def)
  have fits: "unat ?B + unat ?N * unat (8 :: 64 word) \<le> 2 ^ 64" by simp
  from res never out below fits show ?thesis by blast
qed

text \<open>
  C3. The claim asks for a bijection on \<open>{0, \<dots>, num_elements - 1}\<close> for every count. The fill
  \<open>std::iota(\<dots>, 0)\<close> counts in \<open>int\<close>: with \<open>2^31 + 1\<close> elements the counter passes
  \<open>INT_MAX\<close>, and the element filled at position \<open>2^31\<close> is the sign-extended \<open>INT_MIN\<close>,
  which is not an index below the count. The shuffle only moves elements, so the returned
  vector contains it, for every engine and seed.
\<close>

theorem permutation_int_counter_overflow:
  "0xFFFFFFFF80000000 \<in> set (generate_random_permutation E 2147483649 seed)
   \<and> \<not> (0xFFFFFFFF80000000 :: 64 word) < 2147483649"
proof -
  have "set (generate_random_permutation E 2147483649 seed)
        = set (iota (unat (2147483649 :: 64 word)) 0)"
    using mset_eq_setD[OF mset_generate_random_permutation] by blast
  also have "\<dots> = (\<lambda>j. scast (of_nat j :: 32 word)) ` {0..<2147483649}"
    by (simp add: iota_eq)
  finally have s: "set (generate_random_permutation E 2147483649 seed)
        = (\<lambda>j. scast (of_nat j :: 32 word)) ` {0..<2147483649}" .
  have "(scast (of_nat 2147483648 :: 32 word) :: 64 word) = 0xFFFFFFFF80000000" by simp
  moreover have "(2147483648 :: nat) \<in> {0..<2147483649}" by simp
  ultimately have "(0xFFFFFFFF80000000 :: 64 word)
        \<in> (\<lambda>j. scast (of_nat j :: 32 word)) ` {0..<2147483649}"
    by (metis (no_types) image_eqI)
  with s show ?thesis by simp
qed

text \<open>
  C4. For a non-null aligned buffer, a count of at least one and a valid stride, the call
  returns the address of the slot of \<open>permutation[0]\<close>, and the stores it performs are, in
  order: for each \<open>i\<close> in \<open>[0, num_elements - 1)\<close> the address of the slot of
  \<open>permutation[i + 1]\<close> into the slot of \<open>permutation[i]\<close>, then the address of the slot of
  \<open>permutation[0]\<close> into the slot of \<open>permutation[num_elements - 1]\<close>; nothing else is stored.
\<close>

theorem chain_builder_links:
  assumes "buffer \<noteq> 0" and "num_elements \<noteq> 0" and "buffer mod pointer_align = 0"
    and "stride mod pointer_align = 0" and "pointer_size \<le> stride"
  shows "\<exists>m'.
     generate_random_pointer_chasing E buffer num_elements stride seed m =
       Inr (get_element_location buffer
              (generate_random_permutation E num_elements seed ! 0) stride, m')
     \<and> stores m' = stores m @
           chain_links buffer stride (generate_random_permutation E num_elements seed)
             (unat num_elements)
     \<and> cells m' =
           apply_stores
             (chain_links buffer stride (generate_random_permutation E num_elements seed)
                (unat num_elements))
             (cells m)
     \<and> length (chain_links buffer stride (generate_random_permutation E num_elements seed)
                 (unat num_elements)) = unat num_elements
     \<and> (\<forall>i. i < unat num_elements - 1 \<longrightarrow>
           chain_links buffer stride (generate_random_permutation E num_elements seed)
             (unat num_elements) ! i =
           (get_element_location buffer
              (generate_random_permutation E num_elements seed ! i) stride,
            get_element_location buffer
              (generate_random_permutation E num_elements seed ! (i + 1)) stride))
     \<and> chain_links buffer stride (generate_random_permutation E num_elements seed)
           (unat num_elements) ! (unat num_elements - 1) =
         (get_element_location buffer
            (generate_random_permutation E num_elements seed ! (unat num_elements - 1)) stride,
          get_element_location buffer
            (generate_random_permutation E num_elements seed ! 0) stride)"
proof -
  have n: "0 < unat num_elements" using assms(2) by (simp add: unat_gt_0)
  have len: "length (chain_links buffer stride p (unat num_elements)) = unat num_elements" for p
    using n by (simp add: chain_links_def)
  have front: "chain_links buffer stride p (unat num_elements) ! i =
      (get_element_location buffer (p ! i) stride,
       get_element_location buffer (p ! (i + 1)) stride)"
    if "i < unat num_elements - 1" for p i
    using that by (simp add: chain_links_def nth_append)
  have closing: "chain_links buffer stride p (unat num_elements) ! (unat num_elements - 1) =
      (get_element_location buffer (p ! (unat num_elements - 1)) stride,
       get_element_location buffer (p ! 0) stride)" for p
    by (simp add: chain_links_def nth_append)
  show ?thesis
    using chain_builder_result[OF assms, of E seed m] len front closing by simp
qed

theorem chain_builder_links_witness:
  "(4096 :: 64 word) \<noteq> 0 \<and> (3 :: 64 word) \<noteq> 0 \<and> (4096 :: 64 word) mod pointer_align = 0
   \<and> (64 :: 64 word) mod pointer_align = 0 \<and> pointer_size \<le> (64 :: 64 word)
   \<and> generate_random_permutation counter_engine 3 42 = [1, 2, 0]
   \<and> (\<exists>m'. generate_random_pointer_chasing counter_engine 4096 3 64 42 empty_memory
               = Inr (4160, m')
          \<and> stores m' = [(4160, 4224), (4224, 4096), (4096, 4160)])"
proof -
  have perm: "generate_random_permutation counter_engine 3 42 = [1, 2, 0]"
    by code_simp
  have links: "chain_links 4096 64 [1, 2, 0] 3
               = [(4160, 4224), (4224, 4096), (4096, 4160)]"
    by code_simp
  have pre: "(4096 :: 64 word) \<noteq> 0 \<and> (3 :: 64 word) \<noteq> 0 \<and> (4096 :: 64 word) mod pointer_align = 0
      \<and> (64 :: 64 word) mod pointer_align = 0 \<and> pointer_size \<le> (64 :: 64 word)"
    by (simp add: pointer_align_def pointer_size_def)
  have loc: "get_element_location 4096 1 64 = 4160"
    by (simp add: get_element_location_def)
  from pre have p: "(4096 :: 64 word) \<noteq> 0" "(3 :: 64 word) \<noteq> 0"
    "(4096 :: 64 word) mod pointer_align = 0" "(64 :: 64 word) mod pointer_align = 0"
    "pointer_size \<le> (64 :: 64 word)"
    by blast+
  from chain_builder_links[OF p, of counter_engine 42 empty_memory]
  obtain m' where
    "generate_random_pointer_chasing counter_engine 4096 3 64 42 empty_memory
       = Inr (get_element_location 4096 ([1, 2, 0] ! 0) 64, m')"
    "stores m' = stores empty_memory @ chain_links 4096 64 [1, 2, 0] (unat (3 :: 64 word))"
    unfolding perm by (elim exE conjE)
  then have "generate_random_pointer_chasing counter_engine 4096 3 64 42 empty_memory
               = Inr (4160, m')
          \<and> stores m' = [(4160, 4224), (4224, 4096), (4096, 4160)]"
    by (simp add: links loc empty_memory_def)
  with pre perm show ?thesis by blast
qed

text \<open>
  C6. With a null buffer or a count of zero the call returns the null address, throws nothing,
  and leaves the memory as it was: no cell changes and no store is logged.
\<close>

theorem null_or_empty_returns_null:
  assumes "buffer = 0 \<or> num_elements = 0"
  shows "generate_random_pointer_chasing E buffer num_elements stride seed m = Inr (0, m)"
  using assms by (simp add: generate_random_pointer_chasing_def)

theorem null_or_empty_returns_null_witness:
  "((0 :: 64 word) = 0 \<or> (5 :: 64 word) = 0)
   \<and> generate_random_pointer_chasing counter_engine 0 5 64 1 empty_memory = Inr (0, empty_memory)"
  using null_or_empty_returns_null[of 0 5 counter_engine 64 1 empty_memory] by simp

text \<open>
  C7. For a non-null buffer and a count of at least one, the three contract checks run in
  the order buffer alignment, stride alignment, stride size, and the first one that fails
  decides the outcome: the buffer-alignment error exactly when the buffer address is not a
  multiple of the pointer alignment; the stride-alignment error exactly when the buffer passed
  and the stride is not a multiple of the pointer alignment; the stride-size error exactly
  when both passed and the stride is below the pointer width. All three are
  \<open>std::invalid_argument\<close>; their messages differ pairwise. The call throws exactly when one
  of the three conditions holds.
\<close>

theorem contract_errors_in_order:
  assumes "buffer \<noteq> 0" and "num_elements \<noteq> 0"
  shows "(generate_random_pointer_chasing E buffer num_elements stride seed m
            = Inl (InvalidArgument msg_buffer_align)
          \<longleftrightarrow> buffer mod pointer_align \<noteq> 0)
     \<and> (generate_random_pointer_chasing E buffer num_elements stride seed m
            = Inl (InvalidArgument msg_stride_align)
          \<longleftrightarrow> buffer mod pointer_align = 0 \<and> stride mod pointer_align \<noteq> 0)
     \<and> (generate_random_pointer_chasing E buffer num_elements stride seed m
            = Inl (InvalidArgument msg_stride_small)
          \<longleftrightarrow> buffer mod pointer_align = 0 \<and> stride mod pointer_align = 0
              \<and> stride < pointer_size)
     \<and> msg_buffer_align \<noteq> msg_stride_align \<and> msg_buffer_align \<noteq> msg_stride_small
     \<and> msg_stride_align \<noteq> msg_stride_small
     \<and> ((\<exists>e. generate_random_pointer_chasing E buffer num_elements stride seed m = Inl e)
          \<longleftrightarrow> buffer mod pointer_align \<noteq> 0 \<or> stride mod pointer_align \<noteq> 0
              \<or> stride < pointer_size)"
proof -
  have msgs: "msg_buffer_align \<noteq> msg_stride_align" "msg_buffer_align \<noteq> msg_stride_small"
    "msg_stride_align \<noteq> msg_stride_small"
    by (simp_all add: msg_buffer_align_def msg_stride_align_def msg_stride_small_def)
  show ?thesis
    using assms msgs
    by (auto simp: generate_random_pointer_chasing_def Let_def)
qed

theorem contract_errors_in_order_witness:
  "(4097 :: 64 word) \<noteq> 0 \<and> (3 :: 64 word) \<noteq> 0
   \<and> generate_random_pointer_chasing counter_engine 4097 3 64 42 empty_memory
       = Inl (InvalidArgument msg_buffer_align)
   \<and> generate_random_pointer_chasing counter_engine 4096 3 12 42 empty_memory
       = Inl (InvalidArgument msg_stride_align)
   \<and> generate_random_pointer_chasing counter_engine 4096 3 0 42 empty_memory
       = Inl (InvalidArgument msg_stride_small)"
  using contract_errors_in_order[of 4097 3 counter_engine 64 42 empty_memory]
    contract_errors_in_order[of 4096 3 counter_engine 12 42 empty_memory]
    contract_errors_in_order[of 4096 3 counter_engine 0 42 empty_memory]
  by (simp add: pointer_align_def pointer_size_def)

text \<open>
  C10. The null/empty check comes first: with a null buffer or a count of zero the call
  returns the null address and throws nothing, also when an alignment or stride condition
  is violated at the same time.
\<close>

theorem null_check_precedes_contract_checks:
  assumes "buffer = 0 \<or> num_elements = 0"
    and "buffer mod pointer_align \<noteq> 0 \<or> stride mod pointer_align \<noteq> 0 \<or> stride < pointer_size"
  shows "generate_random_pointer_chasing E buffer num_elements stride seed m = Inr (0, m)
         \<and> (\<forall>e. generate_random_pointer_chasing E buffer num_elements stride seed m \<noteq> Inl e)"
  using assms(1) by (simp add: generate_random_pointer_chasing_def)

theorem null_check_precedes_contract_checks_witness:
  "(0 :: 64 word) = 0
   \<and> (4097 :: 64 word) mod pointer_align \<noteq> 0 \<and> (3 :: 64 word) mod pointer_align \<noteq> 0
   \<and> (3 :: 64 word) < pointer_size
   \<and> generate_random_pointer_chasing counter_engine 4097 0 3 42 empty_memory
       = Inr (0, empty_memory)"
  using null_check_precedes_contract_checks[of 4097 0 3 counter_engine 42 empty_memory]
  by (simp add: pointer_align_def pointer_size_def)

text \<open>
  C5. The index vector is a function of the engine, the count and the seed only: the
  builder passes nothing else to \<open>generate_random_permutation\<close>, and the engine is
  constructed from the seed inside it. For the chain this gives: two calls with the same
  count and seed, on any two non-null aligned buffers, with any two valid strides and
  whatever the memories held before, both succeed and link their slots along one and the same
  index vector; and when the strides are equal too, their traversals visit the same offsets
  from the base address, step for step.
\<close>

theorem chain_topology_independent_of_base:
  assumes "b1 \<noteq> 0" and "b1 mod pointer_align = 0" and "b2 \<noteq> 0" and "b2 mod pointer_align = 0"
    and "num_elements \<noteq> 0"
    and "s1 mod pointer_align = 0" and "pointer_size \<le> s1"
    and "s2 mod pointer_align = 0" and "pointer_size \<le> s2"
  shows "\<exists>perm e1 m1' e2 m2'.
     generate_random_pointer_chasing E b1 num_elements s1 seed m1 = Inr (e1, m1')
     \<and> generate_random_pointer_chasing E b2 num_elements s2 seed m2 = Inr (e2, m2')
     \<and> perm = generate_random_permutation E num_elements seed
     \<and> length perm = unat num_elements
     \<and> e1 = get_element_location b1 (perm ! 0) s1
     \<and> e2 = get_element_location b2 (perm ! 0) s2
     \<and> stores m1' = stores m1 @ chain_links b1 s1 perm (unat num_elements)
     \<and> stores m2' = stores m2 @ chain_links b2 s2 perm (unat num_elements)
     \<and> (s1 = s2 \<longrightarrow> (\<forall>k. follow m1' e1 k - b1 = follow m2' e2 k - b2))"
proof -
  let ?perm = "generate_random_permutation E num_elements seed"
  let ?n = "unat num_elements"
  have n: "0 < ?n" using assms(5) by (simp add: unat_gt_0)
  have len: "length ?perm = ?n" by (rule length_generate_random_permutation)
  have call: "\<exists>e m'. generate_random_pointer_chasing E b num_elements s seed m = Inr (e, m')
      \<and> e = get_element_location b (?perm ! 0) s
      \<and> stores m' = stores m @ chain_links b s ?perm ?n
      \<and> (\<forall>k. follow m' e k - b =
             follow \<lparr>cells = apply_stores (chain_links 0 s ?perm ?n) (\<lambda>a. 0), stores = []\<rparr>
               (get_element_location 0 (?perm ! 0) s) k)"
    if b: "b \<noteq> 0" "b mod pointer_align = 0" and s: "s mod pointer_align = 0" "pointer_size \<le> s"
    for b s m
  proof -
    let ?links = "chain_links 0 s ?perm ?n"
    let ?start = "get_element_location 0 (?perm ! 0) s"
    let ?W = "map (\<lambda>(a, v). (b + a, b + v)) ?links"
    let ?m' = "\<lparr>cells = apply_stores ?W (cells m), stores = stores m @ ?W\<rparr>"
    have closed: "snd ` set ?links \<subseteq> fst ` set ?links" by (rule chain_links_closed[OF n])
    have "(?start, get_element_location 0 (?perm ! (Suc 0 mod ?n)) s) \<in> set ?links"
      unfolding chain_links_cyclic[OF n] using n by auto
    then have start: "?start \<in> fst ` set ?links" by (metis fst_conv image_eqI)
    have W: "chain_links b s ?perm ?n = ?W" by (rule chain_links_translate)
    have e: "get_element_location b (?perm ! 0) s = b + ?start"
      by (simp add: get_element_location_def)
    have res: "generate_random_pointer_chasing E b num_elements s seed m = Inr (b + ?start, ?m')"
      using chain_builder_result[OF b(1) assms(5) b(2) s, of E seed m]
      by (simp only: W e)
    have "follow ?m' (b + ?start) k - b
          = follow \<lparr>cells = apply_stores ?links (\<lambda>a. 0), stores = []\<rparr> ?start k" for k
      by (simp add: follow_translate[OF closed start])
    with res W e show ?thesis by simp
  qed
  from call[OF assms(1) assms(2) assms(6) assms(7), of m1]
  obtain e1 m1' where c1:
    "generate_random_pointer_chasing E b1 num_elements s1 seed m1 = Inr (e1, m1')"
    "e1 = get_element_location b1 (?perm ! 0) s1"
    "stores m1' = stores m1 @ chain_links b1 s1 ?perm ?n"
    "\<forall>k. follow m1' e1 k - b1 =
         follow \<lparr>cells = apply_stores (chain_links 0 s1 ?perm ?n) (\<lambda>a. 0), stores = []\<rparr>
           (get_element_location 0 (?perm ! 0) s1) k"
    by blast
  from call[OF assms(3) assms(4) assms(8) assms(9), of m2]
  obtain e2 m2' where c2:
    "generate_random_pointer_chasing E b2 num_elements s2 seed m2 = Inr (e2, m2')"
    "e2 = get_element_location b2 (?perm ! 0) s2"
    "stores m2' = stores m2 @ chain_links b2 s2 ?perm ?n"
    "\<forall>k. follow m2' e2 k - b2 =
         follow \<lparr>cells = apply_stores (chain_links 0 s2 ?perm ?n) (\<lambda>a. 0), stores = []\<rparr>
           (get_element_location 0 (?perm ! 0) s2) k"
    by blast
  have "s1 = s2 \<longrightarrow> (\<forall>k. follow m1' e1 k - b1 = follow m2' e2 k - b2)"
    using c1(4) c2(4) by simp
  with c1(1-3) c2(1-3) len show ?thesis by blast
qed

theorem chain_topology_independent_of_base_witness:
  "(4096 :: 64 word) \<noteq> 0 \<and> (4096 :: 64 word) mod pointer_align = 0
   \<and> (65536 :: 64 word) \<noteq> 0 \<and> (65536 :: 64 word) mod pointer_align = 0
   \<and> (3 :: 64 word) \<noteq> 0 \<and> (64 :: 64 word) mod pointer_align = 0 \<and> pointer_size \<le> (64 :: 64 word)
   \<and> (\<exists>e1 m1' e2 m2'.
        generate_random_pointer_chasing counter_engine 4096 3 64 42 empty_memory = Inr (e1, m1')
        \<and> generate_random_pointer_chasing counter_engine 65536 3 64 42 empty_memory
            = Inr (e2, m2')
        \<and> (\<forall>k. follow m1' e1 k - 4096 = follow m2' e2 k - 65536))"
proof -
  have h: "(4096 :: 64 word) \<noteq> 0" "(4096 :: 64 word) mod pointer_align = 0"
    "(65536 :: 64 word) \<noteq> 0" "(65536 :: 64 word) mod pointer_align = 0"
    "(3 :: 64 word) \<noteq> 0" "(64 :: 64 word) mod pointer_align = 0" "pointer_size \<le> (64 :: 64 word)"
    by (simp_all add: pointer_align_def pointer_size_def)
  from chain_topology_independent_of_base[OF h h(6) h(7),
      of counter_engine 42 empty_memory empty_memory]
  have "\<exists>e1 m1' e2 m2'.
        generate_random_pointer_chasing counter_engine 4096 3 64 42 empty_memory = Inr (e1, m1')
        \<and> generate_random_pointer_chasing counter_engine 65536 3 64 42 empty_memory
            = Inr (e2, m2')
        \<and> (\<forall>k. follow m1' e1 k - 4096 = follow m2' e2 k - 65536)"
    by blast
  with h show ?thesis by blast
qed

section \<open>Measurement Harness: the trial loop\<close>

declare trial_loop.simps [simp del]

text \<open>One trial: the ten reads advance the read count, the kernel call is logged, and the
  retained record changes only in a measured trial with a smaller cycle delta.\<close>

lemma run_trial_eq:
  "run_trial env sp g i r w =
     ((if NUM_WARMUPS \<le> i \<and> cycles_delta env g (reads w) < cycle_count r
       then r\<lparr>cycle_count := cycles_delta env g (reads w),
              l1d_miss_count := l1d_delta env g (reads w),
              l2_miss_count := l2_delta env g (reads w),
              l3_miss_count := l3_delta env g (reads w),
              tlb_miss_count := tlb_delta env g (reads w)\<rparr>
       else r),
      w\<lparr>reads := reads w + 10, walks := walks w @ [sp]\<rparr>)"
  by (simp add: run_trial_def perf_counter_read_def kernel_def Let_def cycles_delta_def
      l1d_delta_def l2_delta_def l3_delta_def tlb_delta_def eval_nat_numeral)

lemma trial_loop_step:
  "i < NUM_WARMUPS + NUM_TRIALS \<Longrightarrow>
   trial_loop env sp g i r w =
     trial_loop env sp g (Suc i) (fst (run_trial env sp g i r w)) (snd (run_trial env sp g i r w))"
  by (subst trial_loop.simps) (simp add: case_prod_unfold)

lemma trial_loop_done:
  "\<not> i < NUM_WARMUPS + NUM_TRIALS \<Longrightarrow> trial_loop env sp g i r w = (r, w)"
  by (subst trial_loop.simps) simp

text \<open>The loop from read number \<open>reads w\<close> on depends on the readings from there on only.\<close>

lemma trial_loop_cong:
  assumes "\<And>t c. reads w \<le> t \<Longrightarrow> perf_read env' t c = perf_read env t c"
  shows "trial_loop env' sp g i r w = trial_loop env sp g i r w"
  using assms
proof (induction env sp g i r w rule: trial_loop.induct)
  case (1 env sp g i r w)
  show ?case
  proof (cases "i < NUM_WARMUPS + NUM_TRIALS")
    case True
    have same: "run_trial env' sp g i r w = run_trial env sp g i r w"
      by (simp add: run_trial_eq cycles_delta_def l1d_delta_def l2_delta_def l3_delta_def
          tlb_delta_def "1.prems")
    obtain r' w' where rt: "run_trial env sp g i r w = (r', w')"
      by (cases "run_trial env sp g i r w")
    then have "reads w' = reads w + 10" by (auto simp: run_trial_eq)
    then have "\<And>t c. reads w' \<le> t \<Longrightarrow> perf_read env' t c = perf_read env t c"
      using "1.prems" by simp
    from "1.IH"[OF True rt[symmetric] this] show ?thesis
      by (simp add: trial_loop_step[OF True] same rt)
  next
    case False
    then show ?thesis by (simp add: trial_loop_done)
  qed
qed

text \<open>The three warmup trials leave the retained record as it is.\<close>

lemma trial_loop_warmups:
  "trial_loop env sp g 0 r w =
     trial_loop env sp g 3 r (w\<lparr>reads := reads w + 30, walks := walks w @ [sp, sp, sp]\<rparr>)"
proof -
  have s0: "trial_loop env sp g 0 r w =
      trial_loop env sp g (Suc 0) r (w\<lparr>reads := reads w + 10, walks := walks w @ [sp]\<rparr>)"
    by (subst trial_loop_step) (simp_all add: run_trial_eq NUM_WARMUPS_def NUM_TRIALS_def ac_simps)
  have s1: "trial_loop env sp g (Suc 0) r (w\<lparr>reads := reads w + 10, walks := walks w @ [sp]\<rparr>) =
      trial_loop env sp g (Suc (Suc 0)) r
        (w\<lparr>reads := reads w + 20, walks := walks w @ [sp, sp]\<rparr>)"
    by (subst trial_loop_step) (simp_all add: run_trial_eq NUM_WARMUPS_def NUM_TRIALS_def ac_simps)
  have s2: "trial_loop env sp g (Suc (Suc 0)) r
        (w\<lparr>reads := reads w + 20, walks := walks w @ [sp, sp]\<rparr>) =
      trial_loop env sp g (Suc (Suc (Suc 0))) r
        (w\<lparr>reads := reads w + 30, walks := walks w @ [sp, sp, sp]\<rparr>)"
    by (subst trial_loop_step) (simp_all add: run_trial_eq NUM_WARMUPS_def NUM_TRIALS_def ac_simps)
  show ?thesis by (simp only: s0 s1 s2 numeral_3_eq_3)
qed

text \<open>
  The invariant of the measured part of the loop. Before trial \<open>i\<close>, either nothing is
  retained and every measured trial so far had the cycle delta \<open>2^64 - 1\<close> of the initial
  record, or the retained record is that of the first measured trial so far with the least
  cycle delta.
\<close>

lemma trial_loop_select:
  assumes "cycle_count r0 = - 1"
    and "NUM_WARMUPS \<le> i" and "i \<le> NUM_WARMUPS + NUM_TRIALS" and "reads w = t0 + 10 * i"
    and "(r = r0 \<and> (\<forall>k. NUM_WARMUPS \<le> k \<and> k < i \<longrightarrow> cycles_delta env g (t0 + 10 * k) = - 1))
       \<or> (\<exists>j. NUM_WARMUPS \<le> j \<and> j < i \<and> r = retained env g t0 j r0
            \<and> (\<forall>k. NUM_WARMUPS \<le> k \<and> k < j \<longrightarrow>
                  cycles_delta env g (t0 + 10 * j) < cycles_delta env g (t0 + 10 * k))
            \<and> (\<forall>k. NUM_WARMUPS \<le> k \<and> k < i \<longrightarrow>
                  cycles_delta env g (t0 + 10 * j) \<le> cycles_delta env g (t0 + 10 * k)))"
  shows "(fst (trial_loop env sp g i r w) = r0
          \<and> (\<forall>k. NUM_WARMUPS \<le> k \<and> k < NUM_WARMUPS + NUM_TRIALS \<longrightarrow>
                cycles_delta env g (t0 + 10 * k) = - 1))
       \<or> (\<exists>j. NUM_WARMUPS \<le> j \<and> j < NUM_WARMUPS + NUM_TRIALS
            \<and> fst (trial_loop env sp g i r w) = retained env g t0 j r0
            \<and> (\<forall>k. NUM_WARMUPS \<le> k \<and> k < j \<longrightarrow>
                  cycles_delta env g (t0 + 10 * j) < cycles_delta env g (t0 + 10 * k))
            \<and> (\<forall>k. NUM_WARMUPS \<le> k \<and> k < NUM_WARMUPS + NUM_TRIALS \<longrightarrow>
                  cycles_delta env g (t0 + 10 * j) \<le> cycles_delta env g (t0 + 10 * k)))"
  using assms(2-5)
proof (induction env sp g i r w rule: trial_loop.induct)
  case (1 env sp g i r w)
  let ?lat = "\<lambda>k. cycles_delta env g (t0 + 10 * k)"
  show ?case
  proof (cases "i < NUM_WARMUPS + NUM_TRIALS")
    case False
    with "1.prems"(2) have i: "i = NUM_WARMUPS + NUM_TRIALS" by simp
    have "fst (trial_loop env sp g i r w) = r"
      by (simp add: trial_loop_done[OF False])
    with "1.prems"(4) show ?thesis
      by (simp only: i)
  next
    case True
    let ?r' = "fst (run_trial env sp g i r w)"
    let ?w' = "snd (run_trial env sp g i r w)"
    have rt: "(?r', ?w') = run_trial env sp g i r w" by simp
    have w': "reads ?w' = t0 + 10 * Suc i"
      using "1.prems"(3) by (simp add: run_trial_eq)
    have shape: "r = r0 \<or> (\<exists>j. r = retained env g t0 j r0)"
      using "1.prems"(4) by blast
    have collapse: "r\<lparr>cycle_count := a, l1d_miss_count := b, l2_miss_count := c,
                     l3_miss_count := d, tlb_miss_count := e\<rparr>
                  = r0\<lparr>cycle_count := a, l1d_miss_count := b, l2_miss_count := c,
                      l3_miss_count := d, tlb_miss_count := e\<rparr>" for a b c d e
      using shape by (elim disjE exE) (simp_all add: retained_def)
    have upd: "?r' = (if ?lat i < cycle_count r then retained env g t0 i r0 else r)"
      using "1.prems"(1,3)
      by (simp add: run_trial_eq retained_def collapse)
    have inv': "(?r' = r0 \<and> (\<forall>k. NUM_WARMUPS \<le> k \<and> k < Suc i \<longrightarrow> ?lat k = - 1))
       \<or> (\<exists>j. NUM_WARMUPS \<le> j \<and> j < Suc i \<and> ?r' = retained env g t0 j r0
            \<and> (\<forall>k. NUM_WARMUPS \<le> k \<and> k < j \<longrightarrow> ?lat j < ?lat k)
            \<and> (\<forall>k. NUM_WARMUPS \<le> k \<and> k < Suc i \<longrightarrow> ?lat j \<le> ?lat k))"
      using "1.prems"(4)
    proof (elim disjE conjE exE)
      assume r: "r = r0" and all: "\<forall>k. NUM_WARMUPS \<le> k \<and> k < i \<longrightarrow> ?lat k = - 1"
      show ?thesis
      proof (cases "?lat i < - 1")
        case True
        then have "?r' = retained env g t0 i r0" using upd r assms(1) by simp
        moreover have "\<forall>k. NUM_WARMUPS \<le> k \<and> k < i \<longrightarrow> ?lat i < ?lat k"
          using all True by simp
        moreover have "\<forall>k. NUM_WARMUPS \<le> k \<and> k < Suc i \<longrightarrow> ?lat i \<le> ?lat k"
          using all True by (auto simp: less_Suc_eq)
        ultimately show ?thesis using "1.prems"(1) by blast
      next
        case False
        then have m: "?lat i = - 1" by (metis word_order.not_eq_extremum)
        have "?r' = r0" using upd r assms(1) False by simp
        moreover have "\<forall>k. NUM_WARMUPS \<le> k \<and> k < Suc i \<longrightarrow> ?lat k = - 1"
          using all m by (auto simp: less_Suc_eq)
        ultimately show ?thesis by blast
      qed
    next
      fix j
      assume j: "NUM_WARMUPS \<le> j" "j < i" and r: "r = retained env g t0 j r0"
        and first: "\<forall>k. NUM_WARMUPS \<le> k \<and> k < j \<longrightarrow> ?lat j < ?lat k"
        and least: "\<forall>k. NUM_WARMUPS \<le> k \<and> k < i \<longrightarrow> ?lat j \<le> ?lat k"
      have cc: "cycle_count r = ?lat j" by (simp add: r retained_def)
      show ?thesis
      proof (cases "?lat i < ?lat j")
        case True
        then have "?r' = retained env g t0 i r0" using upd cc by simp
        moreover have below: "\<forall>k. NUM_WARMUPS \<le> k \<and> k < i \<longrightarrow> ?lat i < ?lat k"
        proof (intro allI impI)
          fix k assume "NUM_WARMUPS \<le> k \<and> k < i"
          then have "?lat j \<le> ?lat k" using least by blast
          with True show "?lat i < ?lat k" by (rule less_le_trans)
        qed
        moreover have "\<forall>k. NUM_WARMUPS \<le> k \<and> k < Suc i \<longrightarrow> ?lat i \<le> ?lat k"
        proof (intro allI impI)
          fix k assume k: "NUM_WARMUPS \<le> k \<and> k < Suc i"
          show "?lat i \<le> ?lat k"
          proof (cases "k = i")
            case True
            then show ?thesis by simp
          next
            case False
            with k have "NUM_WARMUPS \<le> k \<and> k < i" by simp
            with below have "?lat i < ?lat k" by blast
            then show ?thesis by simp
          qed
        qed
        ultimately show ?thesis using "1.prems"(1) by blast
      next
        case False
        then have "?r' = retained env g t0 j r0" using upd cc r by simp
        moreover have "\<forall>k. NUM_WARMUPS \<le> k \<and> k < Suc i \<longrightarrow> ?lat j \<le> ?lat k"
          using least False by (auto simp: less_Suc_eq not_less)
        moreover have "j < Suc i" using j(2) by simp
        ultimately have "NUM_WARMUPS \<le> j \<and> j < Suc i \<and> ?r' = retained env g t0 j r0
            \<and> (\<forall>k. NUM_WARMUPS \<le> k \<and> k < j \<longrightarrow> ?lat j < ?lat k)
            \<and> (\<forall>k. NUM_WARMUPS \<le> k \<and> k < Suc i \<longrightarrow> ?lat j \<le> ?lat k)"
          using j(1) first by (intro conjI)
        then show ?thesis by (intro disjI2 exI[of _ j])
      qed
    qed
    have bounds: "NUM_WARMUPS \<le> Suc i" "Suc i \<le> NUM_WARMUPS + NUM_TRIALS"
      using "1.prems"(1) True by simp_all
    from "1.IH"[OF True rt bounds w' inv'] show ?thesis
      by (simp add: trial_loop_step[OF True])
  qed
qed

section \<open>Measurement Harness: the counter group\<close>

text \<open>What each step does to the lists of opened and closed handles and to the output.\<close>

lemma open_counter_fst:
  "fst (open_counter env name group_fd w) = open_by_name env (length (opened w)) name group_fd"
  by (simp add: open_counter_def Let_def)

lemma open_counter_snd:
  "opened (snd (open_counter env name group_fd w))
     = opened w @ [open_by_name env (length (opened w)) name group_fd]"
  "closed (snd (open_counter env name group_fd w)) = closed w"
  "cout (snd (open_counter env name group_fd w)) = cout w"
  by (simp_all add: open_counter_def Let_def)

lemma close_counter_sel:
  "opened (close_counter c w) = opened w"
  "closed (close_counter c w) = closed w @ filter perf_counter_is_valid [c]"
  "cout (close_counter c w) = cout w"
  by (simp_all add: close_counter_def perf_counter_close_def)

lemma perf_counter_close_sel:
  "opened (perf_counter_close c w) = opened w"
  "closed (perf_counter_close c w) = closed w @ [c]"
  "cout (perf_counter_close c w) = cout w"
  by (simp_all add: perf_counter_close_def)

lemma free_buffer_sel:
  "opened (free_buffer b w) = opened w"
  "closed (free_buffer b w) = closed w"
  "cout (free_buffer b w) = cout w"
  by (simp_all add: free_buffer_def)

lemma enable_disable_sel:
  "opened (perf_counter_enable c w) = opened w"
  "opened (perf_counter_disable c w) = opened w"
  by (simp_all add: perf_counter_enable_def perf_counter_disable_def)

lemma print_csv_row_sel:
  "opened (print_csv_row r w) = opened w"
  by (simp add: print_csv_row_def)

lemma trial_loop_world:
  "opened (snd (trial_loop env sp g i r w)) = opened w"
proof (induction env sp g i r w rule: trial_loop.induct)
  case (1 env sp g i r w)
  show ?case
  proof (cases "i < NUM_WARMUPS + NUM_TRIALS")
    case True
    have rt: "(fst (run_trial env sp g i r w), snd (run_trial env sp g i r w))
              = run_trial env sp g i r w" by simp
    from "1.IH"[OF True rt] show ?thesis
      by (simp add: trial_loop_step[OF True] run_trial_eq)
  next
    case False
    then show ?thesis by (simp add: trial_loop_done)
  qed
qed

text \<open>
  The handles opened by lines 105 to 190 are the leader alone when it is invalid, and all
  five otherwise.
\<close>

lemma measure_configuration_opened:
  assumes c0: "c0 = open_by_name env (length (opened w)) CYCLES_EVENT (- 1)"
    and c1: "c1 = open_by_name env (length (opened w) + 1) L1D_MISS_EVENT (fd c0)"
    and c2: "c2 = open_by_name env (length (opened w) + 2) L2_MISS_EVENT (fd c0)"
    and c3: "c3 = open_by_name env (length (opened w) + 3) L3_MISS_EVENT (fd c0)"
    and c4: "c4 = open_by_name env (length (opened w) + 4) TLB_MISS_EVENT (fd c0)"
  shows "opened (measure_configuration env bs p ps buffer sp w)
         = opened w @ (if perf_counter_is_valid c0 then [c0, c1, c2, c3, c4] else [c0])"
proof (cases "perf_counter_is_valid c0")
  case False
  then show ?thesis
    unfolding c0
    by (simp add: measure_configuration_def case_prod_unfold open_counter_fst open_counter_snd
        free_buffer_sel)
next
  case True
  show ?thesis
  proof (cases "perf_counter_is_valid c1 \<and> perf_counter_is_valid c2
                \<and> perf_counter_is_valid c3 \<and> perf_counter_is_valid c4")
    case False
    with True show ?thesis
      unfolding c0 c1 c2 c3 c4
      by (simp add: measure_configuration_def case_prod_unfold Let_def open_counter_fst
          open_counter_snd free_buffer_sel close_counter_sel eval_nat_numeral)
  next
    case all: True
    with True show ?thesis
      unfolding c0 c1 c2 c3 c4
      by (simp add: measure_configuration_def case_prod_unfold Let_def open_counter_fst
          open_counter_snd free_buffer_sel perf_counter_close_sel enable_disable_sel
          print_csv_row_sel trial_loop_world eval_nat_numeral)
  qed
qed

text \<open>
  When one of the handles is invalid, nothing is printed and the handles closed are the
  valid ones among the five.
\<close>

lemma measure_configuration_failure:
  assumes c0: "c0 = open_by_name env (length (opened w)) CYCLES_EVENT (- 1)"
    and c1: "c1 = open_by_name env (length (opened w) + 1) L1D_MISS_EVENT (fd c0)"
    and c2: "c2 = open_by_name env (length (opened w) + 2) L2_MISS_EVENT (fd c0)"
    and c3: "c3 = open_by_name env (length (opened w) + 3) L3_MISS_EVENT (fd c0)"
    and c4: "c4 = open_by_name env (length (opened w) + 4) TLB_MISS_EVENT (fd c0)"
    and bad: "\<not> (perf_counter_is_valid c0 \<and> perf_counter_is_valid c1 \<and> perf_counter_is_valid c2
                \<and> perf_counter_is_valid c3 \<and> perf_counter_is_valid c4)"
  shows "cout (measure_configuration env bs p ps buffer sp w) = cout w"
    and "closed (measure_configuration env bs p ps buffer sp w)
         = closed w @ (if perf_counter_is_valid c0
                       then filter perf_counter_is_valid [c1, c2, c3, c4, c0] else [])"
proof -
  show "cout (measure_configuration env bs p ps buffer sp w) = cout w"
  proof (cases "perf_counter_is_valid c0")
    case False
    then show ?thesis
      unfolding c0
      by (simp add: measure_configuration_def case_prod_unfold open_counter_fst open_counter_snd
          free_buffer_sel)
  next
    case True
    with bad show ?thesis
      unfolding c0 c1 c2 c3 c4
      by (simp add: measure_configuration_def case_prod_unfold Let_def open_counter_fst
          open_counter_snd free_buffer_sel close_counter_sel eval_nat_numeral)
  qed
  show "closed (measure_configuration env bs p ps buffer sp w)
         = closed w @ (if perf_counter_is_valid c0
                       then filter perf_counter_is_valid [c1, c2, c3, c4, c0] else [])"
  proof (cases "perf_counter_is_valid c0")
    case False
    then show ?thesis
      unfolding c0
      by (simp add: measure_configuration_def case_prod_unfold open_counter_fst open_counter_snd
          free_buffer_sel)
  next
    case True
    with bad show ?thesis
      unfolding c0 c1 c2 c3 c4
      by (simp add: measure_configuration_def case_prod_unfold Let_def open_counter_fst
          open_counter_snd free_buffer_sel close_counter_sel eval_nat_numeral)
  qed
qed

text \<open>
  The ways \<open>run_benchmark\<close> ends: it divides by zero; it throws or returns before any
  counter is opened; or it returns what lines 105 to 190 make of a world in which no counter
  has been opened or closed and nothing printed since the call.
\<close>

lemma run_benchmark_cases:
  "run_benchmark env bs p hp w = DivisionByZero
   \<or> (\<exists>e w'. run_benchmark env bs p hp w = Thrown e w' \<and> opened w' = opened w)
   \<or> (\<exists>w'. run_benchmark env bs p hp w = Returned w' \<and> opened w' = opened w)
   \<or> (\<exists>ps buffer sp w1.
         run_benchmark env bs p hp w = Returned (measure_configuration env bs p ps buffer sp w1)
         \<and> opened w1 = opened w \<and> closed w1 = closed w \<and> cout w1 = cout w)"
proof (cases "p = 0")
  case True
  then show ?thesis by (simp add: run_benchmark_def)
next
  case p: False
  show ?thesis
  proof (cases "bs mod p \<noteq> 0")
    case True
    with p show ?thesis by (simp add: run_benchmark_def)
  next
    case False
    then have m: "bs mod p = 0" by simp
    show ?thesis
    proof (cases "if hp then get_hugepage_size env else get_page_size env")
      case (Inl e)
      with p m show ?thesis by (simp add: run_benchmark_def)
    next
      case (Inr ps)
      obtain a w0 where al: "allocate_aligned_buffer env bs ps w = (a, w0)"
        by (cases "allocate_aligned_buffer env bs ps w")
      then have w0: "opened w0 = opened w" "closed w0 = closed w" "cout w0 = cout w"
        by (auto simp: allocate_aligned_buffer_def Let_def split: if_splits)
      show ?thesis
      proof (cases a)
        case (Inl e)
        with p m Inr al w0 show ?thesis by (simp add: run_benchmark_def)
      next
        case buf: (Inr buffer)
        let ?w1 = "if madvise env buffer bs hp \<noteq> 0
                   then w0\<lparr>cerr := cerr w0 @
                          [(if hp then ''Warning: madvise(MADV_HUGEPAGE) failed: ''
                            else ''Warning: madvise(MADV_NOHUGEPAGE) failed: '')
                           @ strerror_errno env]\<rparr>
                   else w0"
        have w1: "opened ?w1 = opened w" "closed ?w1 = closed w" "cout ?w1 = cout w"
          using w0 by simp_all
        show ?thesis
        proof (cases "generate_random_pointer_chasing (rng env) buffer (bs div p) p RAND_SEED
                        (mem ?w1)")
          case (Inl e)
          have "run_benchmark env bs p hp w = Thrown e (free_buffer buffer ?w1)"
            using p m Inr al buf Inl by (simp add: run_benchmark_def Let_def)
          moreover have "opened (free_buffer buffer ?w1) = opened w"
            using w1 by (simp only: free_buffer_sel)
          ultimately show ?thesis by blast
        next
          case chain: (Inr r)
          obtain sp m' where r: "r = (sp, m')" by (cases r)
          have "run_benchmark env bs p hp w =
                Returned (measure_configuration env bs p ps buffer sp (?w1\<lparr>mem := m'\<rparr>))"
            using p m Inr al buf chain r by (simp add: run_benchmark_def Let_def)
          moreover have "opened (?w1\<lparr>mem := m'\<rparr>) = opened w"
            "closed (?w1\<lparr>mem := m'\<rparr>) = closed w" "cout (?w1\<lparr>mem := m'\<rparr>) = cout w"
            using w0 by simp_all
          ultimately show ?thesis by blast
        qed
      qed
    qed
  qed
qed

section \<open>Measurement Harness: from the trial loop to the printed record\<close>

text \<open>
  The loop as a whole. If some measured trial has a cycle delta below the initial
  \<open>2^64 - 1\<close>, the loop ends with the record of the first measured trial with the least cycle
  delta.
\<close>

lemma trial_loop_min:
  assumes "cycle_count r0 = - 1"
    and "\<exists>i. NUM_WARMUPS \<le> i \<and> i < NUM_WARMUPS + NUM_TRIALS
             \<and> cycles_delta env g (reads w + 10 * i) < - 1"
  shows "\<exists>j. NUM_WARMUPS \<le> j \<and> j < NUM_WARMUPS + NUM_TRIALS
            \<and> (\<forall>i. NUM_WARMUPS \<le> i \<and> i < NUM_WARMUPS + NUM_TRIALS \<longrightarrow>
                  cycles_delta env g (reads w + 10 * j) \<le> cycles_delta env g (reads w + 10 * i))
            \<and> (\<forall>i. NUM_WARMUPS \<le> i \<and> i < j \<longrightarrow>
                  cycles_delta env g (reads w + 10 * j) < cycles_delta env g (reads w + 10 * i))
            \<and> fst (trial_loop env sp g 0 r0 w) = retained env g (reads w) j r0"
proof -
  let ?w3 = "w\<lparr>reads := reads w + 30, walks := walks w @ [sp, sp, sp]\<rparr>"
  have start: "(r0 = r0 \<and> (\<forall>k. NUM_WARMUPS \<le> k \<and> k < 3 \<longrightarrow>
                   cycles_delta env g (reads w + 10 * k) = - 1))
       \<or> (\<exists>j. NUM_WARMUPS \<le> j \<and> j < 3 \<and> r0 = retained env g (reads w) j r0
            \<and> (\<forall>k. NUM_WARMUPS \<le> k \<and> k < j \<longrightarrow>
                  cycles_delta env g (reads w + 10 * j) < cycles_delta env g (reads w + 10 * k))
            \<and> (\<forall>k. NUM_WARMUPS \<le> k \<and> k < 3 \<longrightarrow>
                  cycles_delta env g (reads w + 10 * j) \<le> cycles_delta env g (reads w + 10 * k)))"
    by (auto simp: NUM_WARMUPS_def)
  have "NUM_WARMUPS \<le> 3" "3 \<le> NUM_WARMUPS + NUM_TRIALS" "reads ?w3 = reads w + 10 * 3"
    by (simp_all add: NUM_WARMUPS_def NUM_TRIALS_def)
  from trial_loop_select[OF assms(1) this start, of sp] assms(2)
  obtain j where j: "NUM_WARMUPS \<le> j" "j < NUM_WARMUPS + NUM_TRIALS"
    and res: "fst (trial_loop env sp g 3 r0 ?w3) = retained env g (reads w) j r0"
    and first: "\<forall>k. NUM_WARMUPS \<le> k \<and> k < j \<longrightarrow>
                  cycles_delta env g (reads w + 10 * j) < cycles_delta env g (reads w + 10 * k)"
    and least: "\<forall>k. NUM_WARMUPS \<le> k \<and> k < NUM_WARMUPS + NUM_TRIALS \<longrightarrow>
                  cycles_delta env g (reads w + 10 * j) \<le> cycles_delta env g (reads w + 10 * k)"
    by (elim disjE conjE exE) auto
  have r: "fst (trial_loop env sp g 0 r0 w) = retained env g (reads w) j r0"
    by (simp only: trial_loop_warmups res)
  from j least first r show ?thesis
    by (intro exI[of _ j]) (simp only: simp_thms)
qed

text \<open>Readings taken before the first measured trial do not reach the result of the loop.\<close>

lemma trial_loop_warmup_independent:
  assumes "\<And>t c. reads w + 10 * NUM_WARMUPS \<le> t \<Longrightarrow> perf_read env' t c = perf_read env t c"
  shows "trial_loop env' sp g 0 r0 w = trial_loop env sp g 0 r0 w"
proof -
  let ?w3 = "w\<lparr>reads := reads w + 30, walks := walks w @ [sp, sp, sp]\<rparr>"
  have "trial_loop env' sp g 3 r0 ?w3 = trial_loop env sp g 3 r0 ?w3"
    by (rule trial_loop_cong) (use assms in \<open>simp add: NUM_WARMUPS_def\<close>)
  then show ?thesis by (simp only: trial_loop_warmups)
qed

text \<open>
  A counter that never runs backwards cannot show the delta \<open>2^64 - 1\<close> in two trials in a
  row: the first would end at \<open>2^64 - 1\<close>, and the second would start and end there.
\<close>

lemma word_sub_max:
  assumes "a \<le> b" and "b - a = (- 1 :: 64 word)"
  shows "b = - 1"
proof -
  have "(- 1 :: 64 word) = 18446744073709551615" by simp
  then have "unat (- 1 :: 64 word) = unat (18446744073709551615 :: 64 word)" by (rule arg_cong)
  also have "\<dots> = 18446744073709551615" by simp
  finally have m: "unat (- 1 :: 64 word) = 2 ^ 64 - 1" by simp
  have "unat (b - a) = unat b - unat a" using assms(1) by (rule unat_sub)
  then have "unat b - unat a = 2 ^ 64 - 1" by (simp only: assms(2) m)
  moreover have "unat b < 2 ^ 64" by (rule unat_lt64)
  ultimately have "unat b = 2 ^ 64 - 1" by simp
  then have "unat b = unat (- 1 :: 64 word)" by (simp only: m)
  then show ?thesis by (simp only: word_unat_eq_iff)
qed

lemma word_max_le: "(- 1 :: 64 word) \<le> x \<Longrightarrow> x = - 1"
  by (simp add: word_order.extremum_unique)

lemma monotone_small_delta:
  assumes mono: "\<forall>t t'. t \<le> t' \<longrightarrow>
             perf_read env t (cycle_counter g) \<le> perf_read env t' (cycle_counter g)"
  shows "\<exists>i. NUM_WARMUPS \<le> i \<and> i < NUM_WARMUPS + NUM_TRIALS
             \<and> cycles_delta env g (t0 + 10 * i) < - 1"
proof (cases "cycles_delta env g (t0 + 10 * 3) < - 1")
  case True
  show ?thesis
    by (rule exI[of _ 3]) (use True in \<open>simp add: NUM_WARMUPS_def NUM_TRIALS_def\<close>)
next
  case False
  let ?r = "\<lambda>t. perf_read env t (cycle_counter g)"
  have t: "t0 + 10 * 3 + 5 = t0 + 35" "t0 + 10 * 3 + 4 = t0 + 34"
    "t0 + 10 * 4 + 5 = t0 + 45" "t0 + 10 * 4 + 4 = t0 + 44"
    by simp_all
  from False have "cycles_delta env g (t0 + 10 * 3) = - 1"
    by (metis word_order.not_eq_extremum)
  then have d: "?r (t0 + 35) - ?r (t0 + 34) = - 1"
    by (simp only: cycles_delta_def t)
  have "?r (t0 + 34) \<le> ?r (t0 + 35)" using mono by simp
  from word_sub_max[OF this d] have e3: "?r (t0 + 35) = - 1" .
  have "?r (t0 + 35) \<le> ?r (t0 + 44)" using mono by simp
  then have s4: "?r (t0 + 44) = - 1" unfolding e3 by (rule word_max_le)
  have "?r (t0 + 44) \<le> ?r (t0 + 45)" using mono by simp
  then have e4: "?r (t0 + 45) = - 1" unfolding s4 by (rule word_max_le)
  have "cycles_delta env g (t0 + 10 * 4) = 0"
    by (simp only: cycles_delta_def t s4 e4) simp
  moreover have "(0 :: 64 word) < - 1"
    using word_order.not_eq_extremum by fastforce
  ultimately have "cycles_delta env g (t0 + 10 * 4) < - 1" by (simp only:)
  then show ?thesis
    by (intro exI[of _ 4]) (simp add: NUM_WARMUPS_def NUM_TRIALS_def)
qed

text \<open>More of what each step does to the world.\<close>

lemma open_counter_reads: "reads (snd (open_counter env name group_fd w)) = reads w"
  by (simp add: open_counter_def Let_def)

lemma enable_sel:
  "cout (perf_counter_enable c w) = cout w"
  "reads (perf_counter_enable c w) = reads w"
  by (simp_all add: perf_counter_enable_def)

lemma disable_cout: "cout (perf_counter_disable c w) = cout w"
  by (simp add: perf_counter_disable_def)

lemma print_csv_row_cout: "cout (print_csv_row r w) = cout w @ [r]"
  by (simp add: print_csv_row_def)

lemma trial_loop_cout: "cout (snd (trial_loop env sp g i r w)) = cout w"
proof (induction env sp g i r w rule: trial_loop.induct)
  case (1 env sp g i r w)
  show ?case
  proof (cases "i < NUM_WARMUPS + NUM_TRIALS")
    case True
    have rt: "(fst (run_trial env sp g i r w), snd (run_trial env sp g i r w))
              = run_trial env sp g i r w" by simp
    from "1.IH"[OF True rt] show ?thesis
      by (simp add: trial_loop_step[OF True] run_trial_eq)
  next
    case False
    then show ?thesis by (simp add: trial_loop_done)
  qed
qed

text \<open>
  With five valid handles, lines 105 to 190 print exactly one record: the result of the trial
  loop, started from the record with the cycle count \<open>2^64 - 1\<close> and zero miss counts, in
  a world with as many counter reads as before.
\<close>

lemma measure_configuration_row:
  assumes c0: "c0 = open_by_name env (length (opened w)) CYCLES_EVENT (- 1)"
    and c1: "c1 = open_by_name env (length (opened w) + 1) L1D_MISS_EVENT (fd c0)"
    and c2: "c2 = open_by_name env (length (opened w) + 2) L2_MISS_EVENT (fd c0)"
    and c3: "c3 = open_by_name env (length (opened w) + 3) L3_MISS_EVENT (fd c0)"
    and c4: "c4 = open_by_name env (length (opened w) + 4) TLB_MISS_EVENT (fd c0)"
    and valid: "perf_counter_is_valid c0" "perf_counter_is_valid c1" "perf_counter_is_valid c2"
      "perf_counter_is_valid c3" "perf_counter_is_valid c4"
  shows "\<exists>wE. reads wE = reads w
          \<and> cout (measure_configuration env bs p ps buffer sp w)
            = cout w @
              [fst (trial_loop env sp
                      \<lparr>cycle_counter = c0, l1d_miss_counter = c1, l2_miss_counter = c2,
                       l3_miss_counter = c3, tlb_miss_counter = c4\<rparr>
                      0
                      \<lparr>buffer_size = bs, padded_element_size = p, page_size = ps,
                       num_logical_loads = NUM_LOGICAL_LOADS, cycle_count = - 1,
                       l1d_miss_count = 0, l2_miss_count = 0, l3_miss_count = 0,
                       tlb_miss_count = 0\<rparr>
                      wE)]"
proof -
  let ?w1 = "snd (open_counter env CYCLES_EVENT (- 1) w)"
  let ?w2 = "snd (open_counter env L1D_MISS_EVENT (fd c0) ?w1)"
  let ?w3 = "snd (open_counter env L2_MISS_EVENT (fd c0) ?w2)"
  let ?w4 = "snd (open_counter env L3_MISS_EVENT (fd c0) ?w3)"
  let ?w5 = "snd (open_counter env TLB_MISS_EVENT (fd c0) ?w4)"
  let ?wE = "perf_counter_enable c0 ?w5"
  have r: "reads ?wE = reads w"
    by (simp only: enable_sel open_counter_reads)
  have "cout (measure_configuration env bs p ps buffer sp w)
            = cout w @
              [fst (trial_loop env sp
                      \<lparr>cycle_counter = c0, l1d_miss_counter = c1, l2_miss_counter = c2,
                       l3_miss_counter = c3, tlb_miss_counter = c4\<rparr>
                      0
                      \<lparr>buffer_size = bs, padded_element_size = p, page_size = ps,
                       num_logical_loads = NUM_LOGICAL_LOADS, cycle_count = - 1,
                       l1d_miss_count = 0, l2_miss_count = 0, l3_miss_count = 0,
                       tlb_miss_count = 0\<rparr>
                      ?wE)]"
    using valid unfolding c0 c1 c2 c3 c4
    by (simp add: measure_configuration_def case_prod_unfold Let_def open_counter_fst
        open_counter_snd free_buffer_sel perf_counter_close_sel enable_sel disable_cout
        print_csv_row_cout trial_loop_cout eval_nat_numeral)
  with r show ?thesis by blast
qed

text \<open>
  Lines 105 to 190 depend on the counter readings through the trial loop only, hence not on
  readings taken before the first measured trial.
\<close>

lemma open_counter_perf_read:
  "open_counter (env\<lparr>perf_read := f\<rparr>) name group_fd w = open_counter env name group_fd w"
  by (simp add: open_counter_def)

lemma measure_configuration_warmup_independent:
  assumes "\<And>t c. reads w + 10 * NUM_WARMUPS \<le> t \<Longrightarrow> f t c = perf_read env t c"
  shows "measure_configuration (env\<lparr>perf_read := f\<rparr>) bs p ps buffer sp w
         = measure_configuration env bs p ps buffer sp w"
proof -
  have loop: "trial_loop (env\<lparr>perf_read := f\<rparr>) sp g 0 r0 wE = trial_loop env sp g 0 r0 wE"
    if "reads wE = reads w" for g r0 wE
    by (rule trial_loop_warmup_independent) (use that assms in simp)
  show ?thesis
    by (simp add: measure_configuration_def open_counter_perf_read case_prod_unfold Let_def
        loop enable_sel open_counter_reads cong: if_cong)
qed

text \<open>The allocation only adds to the list of allocations.\<close>

lemma allocate_aligned_buffer_world:
  assumes "allocate_aligned_buffer env size_bytes alignment_bytes w = (r, w0)"
  shows "opened w0 = opened w" and "cout w0 = cout w" and "reads w0 = reads w"
    and "mem w0 = mem w"
  using assms by (auto simp: allocate_aligned_buffer_def Let_def split: if_splits)

lemma allocate_aligned_buffer_perf_read:
  "allocate_aligned_buffer (env\<lparr>perf_read := f\<rparr>) size_bytes alignment_bytes w
   = allocate_aligned_buffer env size_bytes alignment_bytes w"
  by (simp add: allocate_aligned_buffer_def)

text \<open>
  Once the chain is built, \<open>run_benchmark\<close> returns what lines 105 to 190 make of a world
  with the output, the opened handles and the number of counter reads of the call's start.
\<close>

lemma run_benchmark_reached:
  assumes "p \<noteq> 0" and "bs mod p = 0"
    and "(if hp then get_hugepage_size env else get_page_size env) = Inr ps"
    and "allocate_aligned_buffer env bs ps w = (Inr buffer, w0)"
    and "generate_random_pointer_chasing (rng env) buffer (bs div p) p RAND_SEED (mem w0)
         = Inr (sp, m')"
  shows "\<exists>w1. run_benchmark env bs p hp w
               = Returned (measure_configuration env bs p ps buffer sp w1)
          \<and> opened w1 = opened w \<and> cout w1 = cout w \<and> reads w1 = reads w"
proof -
  let ?w1 = "(if madvise env buffer bs hp \<noteq> 0
              then w0\<lparr>cerr := cerr w0 @
                     [(if hp then ''Warning: madvise(MADV_HUGEPAGE) failed: ''
                       else ''Warning: madvise(MADV_NOHUGEPAGE) failed: '')
                      @ strerror_errno env]\<rparr>
              else w0)\<lparr>mem := m'\<rparr>"
  have "run_benchmark env bs p hp w = Returned (measure_configuration env bs p ps buffer sp ?w1)"
    using assms by (simp add: run_benchmark_def Let_def)
  moreover have "opened ?w1 = opened w" "cout ?w1 = cout w" "reads ?w1 = reads w"
    using allocate_aligned_buffer_world[OF assms(4)] by simp_all
  ultimately show ?thesis by blast
qed

text \<open>
  A call of \<open>run_benchmark\<close> does not depend on counter readings taken before its first
  measured trial.
\<close>

lemma run_benchmark_warmup_independent:
  assumes agree: "\<And>t c. reads w + 10 * NUM_WARMUPS \<le> t \<Longrightarrow> f t c = perf_read env t c"
  shows "run_benchmark (env\<lparr>perf_read := f\<rparr>) bs p hp w = run_benchmark env bs p hp w"
proof (cases "p = 0 \<or> bs mod p \<noteq> 0")
  case True
  then show ?thesis by (auto simp: run_benchmark_def)
next
  case False
  then have p: "p \<noteq> 0" "bs mod p = 0" by simp_all
  have page: "(if hp then get_hugepage_size (env\<lparr>perf_read := f\<rparr>)
               else get_page_size (env\<lparr>perf_read := f\<rparr>))
              = (if hp then get_hugepage_size env else get_page_size env)"
    by (simp add: get_hugepage_size_def get_page_size_def)
  show ?thesis
  proof (cases "if hp then get_hugepage_size env else get_page_size env")
    case (Inl e)
    with p page show ?thesis by (simp add: run_benchmark_def)
  next
    case (Inr ps)
    obtain a w0 where al: "allocate_aligned_buffer env bs ps w = (a, w0)"
      by (cases "allocate_aligned_buffer env bs ps w")
    note w0 = allocate_aligned_buffer_world[OF al]
    show ?thesis
    proof (cases a)
      case (Inl e)
      with p page Inr al show ?thesis
        by (simp add: run_benchmark_def allocate_aligned_buffer_perf_read)
    next
      case buf: (Inr buffer)
      let ?w1 = "if madvise env buffer bs hp \<noteq> 0
                 then w0\<lparr>cerr := cerr w0 @
                        [(if hp then ''Warning: madvise(MADV_HUGEPAGE) failed: ''
                          else ''Warning: madvise(MADV_NOHUGEPAGE) failed: '')
                         @ strerror_errno env]\<rparr>
                 else w0"
      have mw: "mem ?w1 = mem w0" by simp
      show ?thesis
      proof (cases "generate_random_pointer_chasing (rng env) buffer (bs div p) p RAND_SEED
                      (mem w0)")
        case (Inl e)
        have "run_benchmark env bs p hp w = Thrown e (free_buffer buffer ?w1)"
          using p Inr al buf Inl by (simp add: run_benchmark_def Let_def)
        moreover have "run_benchmark (env\<lparr>perf_read := f\<rparr>) bs p hp w
                       = Thrown e (free_buffer buffer ?w1)"
          using p page Inr al buf Inl
          by (simp add: run_benchmark_def Let_def allocate_aligned_buffer_perf_read)
        ultimately show ?thesis by simp
      next
        case chain: (Inr r)
        obtain sp m' where r: "r = (sp, m')" by (cases r)
        have "reads (?w1\<lparr>mem := m'\<rparr>) = reads w" using w0(3) by simp
        then have mc: "measure_configuration (env\<lparr>perf_read := f\<rparr>) bs p ps buffer sp
                     (?w1\<lparr>mem := m'\<rparr>)
                   = measure_configuration env bs p ps buffer sp (?w1\<lparr>mem := m'\<rparr>)"
          by (intro measure_configuration_warmup_independent) (use agree in simp)
        have "run_benchmark env bs p hp w
              = Returned (measure_configuration env bs p ps buffer sp (?w1\<lparr>mem := m'\<rparr>))"
          using p Inr al buf chain r by (simp add: run_benchmark_def Let_def)
        moreover have "run_benchmark (env\<lparr>perf_read := f\<rparr>) bs p hp w
              = Returned (measure_configuration (env\<lparr>perf_read := f\<rparr>) bs p ps buffer sp
                  (?w1\<lparr>mem := m'\<rparr>))"
          using p page Inr al buf chain r
          by (simp add: run_benchmark_def Let_def allocate_aligned_buffer_perf_read)
        ultimately show ?thesis using mc by simp
      qed
    qed
  qed
qed

text \<open>The synthetic readings never run backwards.\<close>

lemma synthetic_read_mono:
  assumes bound: "sum_list (map (advance ds c) [0..<length ds]) < 2 ^ 64" and le: "t \<le> t'"
  shows "synthetic_read ds t c \<le> synthetic_read ds t' c"
proof -
  let ?s = "\<lambda>t. sum_list (map (\<lambda>i. if 10 * i + 4 < t then advance ds c i else 0) [0..<length ds])"
  have total: "?s u \<le> sum_list (map (advance ds c) [0..<length ds])" for u
    by (rule sum_list_mono) simp
  have "?s t \<le> ?s t'"
    by (rule sum_list_mono) (use le in simp)
  moreover have "?s t < 2 ^ 64" "?s t' < 2 ^ 64"
    using total[of t] total[of t'] bound by simp_all
  ultimately have "unat (of_nat (?s t) :: 64 word) \<le> unat (of_nat (?s t') :: 64 word)"
    by (simp only: unat_of_nat_small)
  then show ?thesis
    by (simp only: synthetic_read_def word_le_nat_alt)
qed

section \<open>Measurement Harness: the claims\<close>

text \<open>
  C1. Take a call of \<open>run_benchmark\<close> that reaches the trials: the size is a multiple of the
  non-zero stride, the page size is known, the buffer is allocated, the chain builder
  returns, and the five handles \<open>g\<close> it opens are valid. The cycle counter is monotonic, as the
  counter interface has it: its readings never run backwards. Then the call returns having
  printed exactly one record, with the configuration's sizes and, for some measured trial
  \<open>j\<close> (3 \<open>\<le>\<close> \<open>j\<close> < 13): the cycle delta of trial \<open>j\<close>, which is the least among the ten measured
  trials (and \<open>j\<close> is the first trial with it), and the four miss deltas of that same trial
  \<open>j\<close>. And whatever the counters show before the first measured trial, during the three
  warmup trials included, the call does the same.
\<close>

theorem min_of_trials_retained:
  assumes "padded_bytes_per_element \<noteq> 0"
    and "buffer_size_in_bytes mod padded_bytes_per_element = 0"
    and "(if use_hugepage then get_hugepage_size env else get_page_size env) = Inr ps"
    and "allocate_aligned_buffer env buffer_size_in_bytes ps w = (Inr buffer, w0)"
    and "generate_random_pointer_chasing (rng env) buffer
           (buffer_size_in_bytes div padded_bytes_per_element) padded_bytes_per_element
           RAND_SEED (mem w0) = Inr (start_ptr, m')"
    and "g = \<lparr>cycle_counter = open_by_name env (length (opened w)) CYCLES_EVENT (- 1),
              l1d_miss_counter = open_by_name env (length (opened w) + 1) L1D_MISS_EVENT
                (fd (open_by_name env (length (opened w)) CYCLES_EVENT (- 1))),
              l2_miss_counter = open_by_name env (length (opened w) + 2) L2_MISS_EVENT
                (fd (open_by_name env (length (opened w)) CYCLES_EVENT (- 1))),
              l3_miss_counter = open_by_name env (length (opened w) + 3) L3_MISS_EVENT
                (fd (open_by_name env (length (opened w)) CYCLES_EVENT (- 1))),
              tlb_miss_counter = open_by_name env (length (opened w) + 4) TLB_MISS_EVENT
                (fd (open_by_name env (length (opened w)) CYCLES_EVENT (- 1)))\<rparr>"
    and "perf_counter_is_valid (cycle_counter g)" and "perf_counter_is_valid (l1d_miss_counter g)"
    and "perf_counter_is_valid (l2_miss_counter g)" and "perf_counter_is_valid (l3_miss_counter g)"
    and "perf_counter_is_valid (tlb_miss_counter g)"
    and "\<forall>t t'. t \<le> t' \<longrightarrow>
           perf_read env t (cycle_counter g) \<le> perf_read env t' (cycle_counter g)"
  shows "(\<exists>j w'. NUM_WARMUPS \<le> j \<and> j < NUM_WARMUPS + NUM_TRIALS
            \<and> (\<forall>i. NUM_WARMUPS \<le> i \<and> i < NUM_WARMUPS + NUM_TRIALS \<longrightarrow>
                  cycles_delta env g (reads w + 10 * j) \<le> cycles_delta env g (reads w + 10 * i))
            \<and> (\<forall>i. NUM_WARMUPS \<le> i \<and> i < j \<longrightarrow>
                  cycles_delta env g (reads w + 10 * j) < cycles_delta env g (reads w + 10 * i))
            \<and> run_benchmark env buffer_size_in_bytes padded_bytes_per_element use_hugepage w
                = Returned w'
            \<and> cout w' = cout w @
                [\<lparr>buffer_size = buffer_size_in_bytes,
                  padded_element_size = padded_bytes_per_element,
                  page_size = ps,
                  num_logical_loads = NUM_LOGICAL_LOADS,
                  cycle_count = cycles_delta env g (reads w + 10 * j),
                  l1d_miss_count = l1d_delta env g (reads w + 10 * j),
                  l2_miss_count = l2_delta env g (reads w + 10 * j),
                  l3_miss_count = l3_delta env g (reads w + 10 * j),
                  tlb_miss_count = tlb_delta env g (reads w + 10 * j)\<rparr>])
     \<and> (\<forall>f. (\<forall>t c. reads w + 10 * NUM_WARMUPS \<le> t \<longrightarrow> f t c = perf_read env t c)
           \<longrightarrow> run_benchmark (env\<lparr>perf_read := f\<rparr>) buffer_size_in_bytes
                 padded_bytes_per_element use_hugepage w
               = run_benchmark env buffer_size_in_bytes padded_bytes_per_element use_hugepage w)"
proof
  let ?r0 = "\<lparr>buffer_size = buffer_size_in_bytes,
             padded_element_size = padded_bytes_per_element, page_size = ps,
             num_logical_loads = NUM_LOGICAL_LOADS, cycle_count = - 1,
             l1d_miss_count = 0, l2_miss_count = 0, l3_miss_count = 0, tlb_miss_count = 0\<rparr>"
  from run_benchmark_reached[OF assms(1-5)]
  obtain w1 where run: "run_benchmark env buffer_size_in_bytes padded_bytes_per_element
                          use_hugepage w
                        = Returned (measure_configuration env buffer_size_in_bytes
                            padded_bytes_per_element ps buffer start_ptr w1)"
    and w1: "opened w1 = opened w" "cout w1 = cout w" "reads w1 = reads w"
    by blast
  have valid: "perf_counter_is_valid (open_by_name env (length (opened w1)) CYCLES_EVENT (- 1))"
    "perf_counter_is_valid (open_by_name env (length (opened w1) + 1) L1D_MISS_EVENT
       (fd (open_by_name env (length (opened w1)) CYCLES_EVENT (- 1))))"
    "perf_counter_is_valid (open_by_name env (length (opened w1) + 2) L2_MISS_EVENT
       (fd (open_by_name env (length (opened w1)) CYCLES_EVENT (- 1))))"
    "perf_counter_is_valid (open_by_name env (length (opened w1) + 3) L3_MISS_EVENT
       (fd (open_by_name env (length (opened w1)) CYCLES_EVENT (- 1))))"
    "perf_counter_is_valid (open_by_name env (length (opened w1) + 4) TLB_MISS_EVENT
       (fd (open_by_name env (length (opened w1)) CYCLES_EVENT (- 1))))"
    using assms(7-11) unfolding assms(6) w1 by simp_all
  from measure_configuration_row[OF refl refl refl refl refl valid,
      of buffer_size_in_bytes padded_bytes_per_element ps buffer start_ptr]
  obtain wE where wE: "reads wE = reads w"
    and row: "cout (measure_configuration env buffer_size_in_bytes padded_bytes_per_element ps
                 buffer start_ptr w1)
              = cout w @ [fst (trial_loop env start_ptr g 0 ?r0 wE)]"
    unfolding assms(6) w1 by blast
  have small: "\<exists>i. NUM_WARMUPS \<le> i \<and> i < NUM_WARMUPS + NUM_TRIALS
                 \<and> cycles_delta env g (reads wE + 10 * i) < - 1"
    by (rule monotone_small_delta[OF assms(12)])
  have "cycle_count ?r0 = - 1" by simp
  from trial_loop_min[OF this small, of start_ptr]
  obtain j where j: "NUM_WARMUPS \<le> j" "j < NUM_WARMUPS + NUM_TRIALS"
    and least: "\<forall>i. NUM_WARMUPS \<le> i \<and> i < NUM_WARMUPS + NUM_TRIALS \<longrightarrow>
                  cycles_delta env g (reads w + 10 * j) \<le> cycles_delta env g (reads w + 10 * i)"
    and first: "\<forall>i. NUM_WARMUPS \<le> i \<and> i < j \<longrightarrow>
                  cycles_delta env g (reads w + 10 * j) < cycles_delta env g (reads w + 10 * i)"
    and res: "fst (trial_loop env start_ptr g 0 ?r0 wE) = retained env g (reads w) j ?r0"
    unfolding wE by blast
  have "cout (measure_configuration env buffer_size_in_bytes padded_bytes_per_element ps
                 buffer start_ptr w1)
        = cout w @
                [\<lparr>buffer_size = buffer_size_in_bytes,
                  padded_element_size = padded_bytes_per_element,
                  page_size = ps,
                  num_logical_loads = NUM_LOGICAL_LOADS,
                  cycle_count = cycles_delta env g (reads w + 10 * j),
                  l1d_miss_count = l1d_delta env g (reads w + 10 * j),
                  l2_miss_count = l2_delta env g (reads w + 10 * j),
                  l3_miss_count = l3_delta env g (reads w + 10 * j),
                  tlb_miss_count = tlb_delta env g (reads w + 10 * j)\<rparr>]"
    by (simp add: row res retained_def)
  with j least first run
  show "\<exists>j w'. NUM_WARMUPS \<le> j \<and> j < NUM_WARMUPS + NUM_TRIALS
            \<and> (\<forall>i. NUM_WARMUPS \<le> i \<and> i < NUM_WARMUPS + NUM_TRIALS \<longrightarrow>
                  cycles_delta env g (reads w + 10 * j) \<le> cycles_delta env g (reads w + 10 * i))
            \<and> (\<forall>i. NUM_WARMUPS \<le> i \<and> i < j \<longrightarrow>
                  cycles_delta env g (reads w + 10 * j) < cycles_delta env g (reads w + 10 * i))
            \<and> run_benchmark env buffer_size_in_bytes padded_bytes_per_element use_hugepage w
                = Returned w'
            \<and> cout w' = cout w @
                [\<lparr>buffer_size = buffer_size_in_bytes,
                  padded_element_size = padded_bytes_per_element,
                  page_size = ps,
                  num_logical_loads = NUM_LOGICAL_LOADS,
                  cycle_count = cycles_delta env g (reads w + 10 * j),
                  l1d_miss_count = l1d_delta env g (reads w + 10 * j),
                  l2_miss_count = l2_delta env g (reads w + 10 * j),
                  l3_miss_count = l3_delta env g (reads w + 10 * j),
                  tlb_miss_count = tlb_delta env g (reads w + 10 * j)\<rparr>]"
    by (intro exI[of _ j] exI[of _ "measure_configuration env buffer_size_in_bytes
          padded_bytes_per_element ps buffer start_ptr w1"]) (simp only: simp_thms)
next
  show "\<forall>f. (\<forall>t c. reads w + 10 * NUM_WARMUPS \<le> t \<longrightarrow> f t c = perf_read env t c)
           \<longrightarrow> run_benchmark (env\<lparr>perf_read := f\<rparr>) buffer_size_in_bytes
                 padded_bytes_per_element use_hugepage w
               = run_benchmark env buffer_size_in_bytes padded_bytes_per_element use_hugepage w"
    by (intro allI impI run_benchmark_warmup_independent) simp
qed

theorem min_of_trials_retained_witness:
  "\<exists>j w'. NUM_WARMUPS \<le> j \<and> j < NUM_WARMUPS + NUM_TRIALS
     \<and> run_benchmark
          (test_platform (test_open [])
             (synthetic_read [7, 7, 7, 50, 30, 45, 28, 60, 70, 80, 90, 100, 110]))
          128 64 False empty_world = Returned w'
     \<and> cout w' =
         [\<lparr>buffer_size = 128, padded_element_size = 64, page_size = 4096,
           num_logical_loads = NUM_LOGICAL_LOADS,
           cycle_count = cycles_delta
             (test_platform (test_open [])
                (synthetic_read [7, 7, 7, 50, 30, 45, 28, 60, 70, 80, 90, 100, 110]))
             test_group (10 * j),
           l1d_miss_count = l1d_delta
             (test_platform (test_open [])
                (synthetic_read [7, 7, 7, 50, 30, 45, 28, 60, 70, 80, 90, 100, 110]))
             test_group (10 * j),
           l2_miss_count = l2_delta
             (test_platform (test_open [])
                (synthetic_read [7, 7, 7, 50, 30, 45, 28, 60, 70, 80, 90, 100, 110]))
             test_group (10 * j),
           l3_miss_count = l3_delta
             (test_platform (test_open [])
                (synthetic_read [7, 7, 7, 50, 30, 45, 28, 60, 70, 80, 90, 100, 110]))
             test_group (10 * j),
           tlb_miss_count = tlb_delta
             (test_platform (test_open [])
                (synthetic_read [7, 7, 7, 50, 30, 45, 28, 60, 70, 80, 90, 100, 110]))
             test_group (10 * j)\<rparr>]
     \<and> j = 6
     \<and> cycles_delta
          (test_platform (test_open [])
             (synthetic_read [7, 7, 7, 50, 30, 45, 28, 60, 70, 80, 90, 100, 110]))
          test_group (10 * j) = 28
     \<and> l1d_delta
          (test_platform (test_open [])
             (synthetic_read [7, 7, 7, 50, 30, 45, 28, 60, 70, 80, 90, 100, 110]))
          test_group (10 * j) = 406"
proof -
  let ?ds = "[7, 7, 7, 50, 30, 45, 28, 60, 70, 80, 90, 100, 110] :: nat list"
  let ?P = "test_platform (test_open []) (synthetic_read ?ds)"
  let ?w0 = "empty_world\<lparr>allocations := [(4096, 4096)]\<rparr>"
  have h1: "(64 :: 64 word) \<noteq> 0" and h2: "(128 :: 64 word) mod 64 = 0" by simp_all
  have h3: "(if False then get_hugepage_size ?P else get_page_size ?P) = Inr 4096"
    by (simp add: get_page_size_def test_platform_def)
  have h4: "allocate_aligned_buffer ?P 128 4096 empty_world = (Inr 65536, ?w0)"
    by (simp add: allocate_aligned_buffer_def test_platform_def Let_def empty_world_def)
  have "\<exists>sp m'. generate_random_pointer_chasing (rng ?P) 65536 (128 div 64) 64 RAND_SEED
                   (mem ?w0) = Inr (sp, m')"
    by (simp add: chain_builder_result pointer_align_def pointer_size_def)
  then obtain sp m' where h5:
    "generate_random_pointer_chasing (rng ?P) 65536 (128 div 64) 64 RAND_SEED (mem ?w0)
     = Inr (sp, m')"
    by blast
  have g: "test_group =
      \<lparr>cycle_counter = open_by_name ?P (length (opened empty_world)) CYCLES_EVENT (- 1),
       l1d_miss_counter = open_by_name ?P (length (opened empty_world) + 1) L1D_MISS_EVENT
         (fd (open_by_name ?P (length (opened empty_world)) CYCLES_EVENT (- 1))),
       l2_miss_counter = open_by_name ?P (length (opened empty_world) + 2) L2_MISS_EVENT
         (fd (open_by_name ?P (length (opened empty_world)) CYCLES_EVENT (- 1))),
       l3_miss_counter = open_by_name ?P (length (opened empty_world) + 3) L3_MISS_EVENT
         (fd (open_by_name ?P (length (opened empty_world)) CYCLES_EVENT (- 1))),
       tlb_miss_counter = open_by_name ?P (length (opened empty_world) + 4) TLB_MISS_EVENT
         (fd (open_by_name ?P (length (opened empty_world)) CYCLES_EVENT (- 1)))\<rparr>"
    by (simp add: test_group_def test_platform_def test_open_def empty_world_def)
  have v: "perf_counter_is_valid (cycle_counter test_group)"
    "perf_counter_is_valid (l1d_miss_counter test_group)"
    "perf_counter_is_valid (l2_miss_counter test_group)"
    "perf_counter_is_valid (l3_miss_counter test_group)"
    "perf_counter_is_valid (tlb_miss_counter test_group)"
    by (simp_all add: test_group_def perf_counter_is_valid_def)
  have "sum_list (map (advance ?ds (cycle_counter test_group)) [0..<length ?ds]) < 2 ^ 64"
    by (simp add: advance_def test_group_def)
  then have mono: "\<forall>t t'. t \<le> t' \<longrightarrow>
        perf_read ?P t (cycle_counter test_group) \<le> perf_read ?P t' (cycle_counter test_group)"
    by (simp add: test_platform_def synthetic_read_mono)
  from min_of_trials_retained[OF h1 h2 h3 h4 h5 g v mono]
  obtain j w' where j: "NUM_WARMUPS \<le> j" "j < NUM_WARMUPS + NUM_TRIALS"
    and least: "\<forall>i. NUM_WARMUPS \<le> i \<and> i < NUM_WARMUPS + NUM_TRIALS \<longrightarrow>
        cycles_delta ?P test_group (reads empty_world + 10 * j)
        \<le> cycles_delta ?P test_group (reads empty_world + 10 * i)"
    and run: "run_benchmark ?P 128 64 False empty_world = Returned w'"
    and row: "cout w' = cout empty_world @
                [\<lparr>buffer_size = 128, padded_element_size = 64, page_size = 4096,
                  num_logical_loads = NUM_LOGICAL_LOADS,
                  cycle_count = cycles_delta ?P test_group (reads empty_world + 10 * j),
                  l1d_miss_count = l1d_delta ?P test_group (reads empty_world + 10 * j),
                  l2_miss_count = l2_delta ?P test_group (reads empty_world + 10 * j),
                  l3_miss_count = l3_delta ?P test_group (reads empty_world + 10 * j),
                  tlb_miss_count = tlb_delta ?P test_group (reads empty_world + 10 * j)\<rparr>]"
    by blast
  have z: "reads empty_world = 0" "cout empty_world = []" by (simp_all add: empty_world_def)
  have lat: "cycles_delta ?P test_group (10 * 3) = 50" "cycles_delta ?P test_group (10 * 4) = 30"
    "cycles_delta ?P test_group (10 * 5) = 45" "cycles_delta ?P test_group (10 * 6) = 28"
    "cycles_delta ?P test_group (10 * 7) = 60" "cycles_delta ?P test_group (10 * 8) = 70"
    "cycles_delta ?P test_group (10 * 9) = 80" "cycles_delta ?P test_group (10 * 10) = 90"
    "cycles_delta ?P test_group (10 * 11) = 100" "cycles_delta ?P test_group (10 * 12) = 110"
    by (simp_all add: cycles_delta_def test_platform_def synthetic_read_def advance_def
        test_group_def)
  have l6: "cycles_delta ?P test_group (10 * j) \<le> 28"
    using least[rule_format, of 6] lat(4) by (simp add: z NUM_WARMUPS_def NUM_TRIALS_def)
  from j have "j = 3 \<or> j = 4 \<or> j = 5 \<or> j = 6 \<or> j = 7 \<or> j = 8 \<or> j = 9 \<or> j = 10
                \<or> j = 11 \<or> j = 12"
    by (simp add: NUM_WARMUPS_def NUM_TRIALS_def) arith
  then have j6: "j = 6"
    using l6 lat by (elim disjE) simp_all
  have misses: "l1d_delta ?P test_group (10 * 6) = 406"
    by (simp add: l1d_delta_def test_platform_def synthetic_read_def advance_def test_group_def)
  from j run row j6 lat(4) misses show ?thesis
    by (intro exI[of _ j] exI[of _ w']) (simp add: z)
qed

text \<open>
  C8, as amended. For a non-zero \<open>padded_bytes_per_element\<close> and a \<open>buffer_size_in_bytes\<close>
  that is not a multiple of it, \<open>run_benchmark\<close> writes the error line to \<open>std::cerr\<close> and
  returns; it prints no record, allocates nothing, and changes nothing else.
\<close>

theorem not_multiple_is_skipped:
  assumes "padded_bytes_per_element \<noteq> 0"
    and "buffer_size_in_bytes mod padded_bytes_per_element \<noteq> 0"
  shows "\<exists>w'. run_benchmark env buffer_size_in_bytes padded_bytes_per_element use_hugepage w
               = Returned w'
          \<and> cerr w' = cerr w @ [msg_not_multiple]
          \<and> cout w' = cout w
          \<and> allocations w' = allocations w
          \<and> w' = w\<lparr>cerr := cerr w'\<rparr>"
  using assms by (simp add: run_benchmark_def)

theorem not_multiple_is_skipped_witness:
  "(64 :: 64 word) \<noteq> 0 \<and> (100 :: 64 word) mod 64 \<noteq> 0
   \<and> run_benchmark (test_platform (test_open []) saturated_read) 100 64 False empty_world
       = Returned (empty_world\<lparr>cerr := [msg_not_multiple]\<rparr>)"
proof -
  have h: "(64 :: 64 word) \<noteq> 0" "(100 :: 64 word) mod 64 \<noteq> 0" by simp_all
  from not_multiple_is_skipped[OF h,
      of "test_platform (test_open []) saturated_read" False empty_world]
  obtain w' where "run_benchmark (test_platform (test_open []) saturated_read) 100 64 False
                     empty_world = Returned w'"
    and "cerr w' = cerr empty_world @ [msg_not_multiple]" and "w' = empty_world\<lparr>cerr := cerr w'\<rparr>"
    by blast
  then have "run_benchmark (test_platform (test_open []) saturated_read) 100 64 False empty_world
       = Returned (empty_world\<lparr>cerr := [msg_not_multiple]\<rparr>)"
    by (simp add: empty_world_def)
  with h show ?thesis by blast
qed

text \<open>
  C8, as stated, fails for a stride of zero: 5 is not a multiple of 0, and the call
  computes \<open>5 % 0\<close> before anything else.
\<close>

theorem not_multiple_is_skipped_counterexample:
  "\<not> (0 :: 64 word) dvd 5
   \<and> run_benchmark (test_platform (test_open []) saturated_read) 5 0 True empty_world
       = DivisionByZero"
  by (simp add: run_benchmark_def)

text \<open>
  C9. A call of \<open>run_benchmark\<close> throws only before any counter is opened, and once the
  chain is built (the size is a multiple of the non-zero stride, the page size is known, the
  buffer allocated and the builder returned) it returns. When it returns and one of the
  handles opened during the call is invalid, it has printed no record, and every valid handle
  opened during the call has been closed during the call.
\<close>

theorem counter_open_failure_is_skipped:
  "(\<forall>e w'. run_benchmark env buffer_size_in_bytes padded_bytes_per_element use_hugepage w
              = Thrown e w' \<longrightarrow> opened w' = opened w)
   \<and> (\<forall>ps buffer w0 sp m'.
          padded_bytes_per_element \<noteq> 0
          \<and> buffer_size_in_bytes mod padded_bytes_per_element = 0
          \<and> (if use_hugepage then get_hugepage_size env else get_page_size env) = Inr ps
          \<and> allocate_aligned_buffer env buffer_size_in_bytes ps w = (Inr buffer, w0)
          \<and> generate_random_pointer_chasing (rng env) buffer
                (buffer_size_in_bytes div padded_bytes_per_element) padded_bytes_per_element
                RAND_SEED (mem w0) = Inr (sp, m')
          \<longrightarrow> (\<exists>w'. run_benchmark env buffer_size_in_bytes padded_bytes_per_element
                       use_hugepage w = Returned w'))
   \<and> (\<forall>w'. run_benchmark env buffer_size_in_bytes padded_bytes_per_element use_hugepage w
              = Returned w'
            \<and> (\<exists>c \<in> set (drop (length (opened w)) (opened w')). \<not> perf_counter_is_valid c)
          \<longrightarrow> cout w' = cout w
              \<and> (\<forall>c \<in> set (drop (length (opened w)) (opened w')).
                    perf_counter_is_valid c \<longrightarrow> c \<in> set (drop (length (closed w)) (closed w'))))"
proof -
  let ?run = "run_benchmark env buffer_size_in_bytes padded_bytes_per_element use_hugepage w"
  have tail: "cout (measure_configuration env bs p ps buffer sp w1) = cout w
      \<and> (\<forall>c \<in> set (drop (length (opened w)) (opened (measure_configuration env bs p ps buffer sp w1))).
            perf_counter_is_valid c \<longrightarrow>
            c \<in> set (drop (length (closed w)) (closed (measure_configuration env bs p ps buffer sp w1))))"
    if w1: "opened w1 = opened w" "closed w1 = closed w" "cout w1 = cout w"
      and bad: "\<exists>c \<in> set (drop (length (opened w))
                   (opened (measure_configuration env bs p ps buffer sp w1))).
                  \<not> perf_counter_is_valid c"
    for bs p ps buffer sp w1
  proof -
    let ?c0 = "open_by_name env (length (opened w1)) CYCLES_EVENT (- 1)"
    let ?c1 = "open_by_name env (length (opened w1) + 1) L1D_MISS_EVENT (fd ?c0)"
    let ?c2 = "open_by_name env (length (opened w1) + 2) L2_MISS_EVENT (fd ?c0)"
    let ?c3 = "open_by_name env (length (opened w1) + 3) L3_MISS_EVENT (fd ?c0)"
    let ?c4 = "open_by_name env (length (opened w1) + 4) TLB_MISS_EVENT (fd ?c0)"
    let ?w' = "measure_configuration env bs p ps buffer sp w1"
    have op: "opened ?w' = opened w1 @
                (if perf_counter_is_valid ?c0 then [?c0, ?c1, ?c2, ?c3, ?c4] else [?c0])"
      by (rule measure_configuration_opened[OF refl refl refl refl refl])
    then have new: "drop (length (opened w)) (opened ?w') =
                (if perf_counter_is_valid ?c0 then [?c0, ?c1, ?c2, ?c3, ?c4] else [?c0])"
      by (simp add: w1)
    from bad have nv: "\<not> (perf_counter_is_valid ?c0 \<and> perf_counter_is_valid ?c1
                \<and> perf_counter_is_valid ?c2 \<and> perf_counter_is_valid ?c3
                \<and> perf_counter_is_valid ?c4)"
      unfolding new by (auto split: if_splits)
    from measure_configuration_failure[OF refl refl refl refl refl nv, of bs p ps buffer sp]
    have co: "cout ?w' = cout w1"
      and cl: "closed ?w' = closed w1 @
                 (if perf_counter_is_valid ?c0
                  then filter perf_counter_is_valid [?c1, ?c2, ?c3, ?c4, ?c0] else [])"
      by blast+
    have "drop (length (closed w)) (closed ?w') =
                 (if perf_counter_is_valid ?c0
                  then filter perf_counter_is_valid [?c1, ?c2, ?c3, ?c4, ?c0] else [])"
      by (simp add: cl w1)
    with new co w1 show ?thesis by auto
  qed
  have reached: "\<forall>ps buffer w0 sp m'.
          padded_bytes_per_element \<noteq> 0
          \<and> buffer_size_in_bytes mod padded_bytes_per_element = 0
          \<and> (if use_hugepage then get_hugepage_size env else get_page_size env) = Inr ps
          \<and> allocate_aligned_buffer env buffer_size_in_bytes ps w = (Inr buffer, w0)
          \<and> generate_random_pointer_chasing (rng env) buffer
                (buffer_size_in_bytes div padded_bytes_per_element) padded_bytes_per_element
                RAND_SEED (mem w0) = Inr (sp, m')
          \<longrightarrow> (\<exists>w'. ?run = Returned w')"
    by (intro allI impI, elim conjE) (simp add: run_benchmark_def Let_def)
  have others: "(\<forall>e w'. ?run = Thrown e w' \<longrightarrow> opened w' = opened w)
   \<and> (\<forall>w'. ?run = Returned w'
            \<and> (\<exists>c \<in> set (drop (length (opened w)) (opened w')). \<not> perf_counter_is_valid c)
          \<longrightarrow> cout w' = cout w
              \<and> (\<forall>c \<in> set (drop (length (opened w)) (opened w')).
                    perf_counter_is_valid c \<longrightarrow> c \<in> set (drop (length (closed w)) (closed w'))))"
    using run_benchmark_cases[of env buffer_size_in_bytes padded_bytes_per_element use_hugepage w]
  proof (elim disjE exE conjE)
    assume "?run = DivisionByZero"
    then show ?thesis by simp
  next
    fix e w' assume "?run = Thrown e w'" "opened w' = opened w"
    then show ?thesis by simp
  next
    fix w' assume "?run = Returned w'" "opened w' = opened w"
    then show ?thesis by simp
  next
    fix ps buffer sp w1
    assume r: "?run = Returned (measure_configuration env buffer_size_in_bytes
                                   padded_bytes_per_element ps buffer sp w1)"
      and w1: "opened w1 = opened w" "closed w1 = closed w" "cout w1 = cout w"
    show ?thesis
      using tail[OF w1] by (simp add: r)
  qed
  from others have thrown: "\<forall>e w'. ?run = Thrown e w' \<longrightarrow> opened w' = opened w"
    by (rule conjunct1)
  from others have returned: "\<forall>w'. ?run = Returned w'
            \<and> (\<exists>c \<in> set (drop (length (opened w)) (opened w')). \<not> perf_counter_is_valid c)
          \<longrightarrow> cout w' = cout w
              \<and> (\<forall>c \<in> set (drop (length (opened w)) (opened w')).
                    perf_counter_is_valid c \<longrightarrow> c \<in> set (drop (length (closed w)) (closed w')))"
    by (rule conjunct2)
  show ?thesis by (intro conjI) (rule thrown, rule reached, rule returned)
qed

theorem counter_open_failure_is_skipped_witness:
  "\<exists>w'. run_benchmark (test_platform (test_open [2]) saturated_read) 128 64 False empty_world
          = Returned w'
     \<and> opened w' = [\<lparr>fd = 3, is_valid = True\<rparr>, \<lparr>fd = 4, is_valid = True\<rparr>,
                     \<lparr>fd = 5, is_valid = False\<rparr>, \<lparr>fd = 6, is_valid = True\<rparr>,
                     \<lparr>fd = 7, is_valid = True\<rparr>]
     \<and> closed w' = [\<lparr>fd = 4, is_valid = True\<rparr>, \<lparr>fd = 6, is_valid = True\<rparr>,
                     \<lparr>fd = 7, is_valid = True\<rparr>, \<lparr>fd = 3, is_valid = True\<rparr>]
     \<and> cout w' = cout empty_world"
proof -
  let ?P = "test_platform (test_open [2]) saturated_read"
  let ?run = "run_benchmark ?P 128 64 False empty_world"
  have "\<exists>sp w1. ?run = Returned (measure_configuration ?P 128 64 4096 65536 sp w1)
          \<and> opened w1 = [] \<and> closed w1 = [] \<and> cout w1 = []"
    apply (simp add: run_benchmark_def Let_def test_platform_def get_page_size_def
        allocate_aligned_buffer_def chain_builder_result pointer_align_def pointer_size_def
        empty_world_def)
    apply (rule exI, rule exI, rule conjI, rule refl)
    apply simp
    done
  then obtain sp w1 where r: "?run = Returned (measure_configuration ?P 128 64 4096 65536 sp w1)"
    and w1: "opened w1 = []" "closed w1 = []" "cout w1 = []"
    by blast
  let ?w' = "measure_configuration ?P 128 64 4096 65536 sp w1"
  have o: "opened ?w' = [\<lparr>fd = 3, is_valid = True\<rparr>, \<lparr>fd = 4, is_valid = True\<rparr>,
                     \<lparr>fd = 5, is_valid = False\<rparr>, \<lparr>fd = 6, is_valid = True\<rparr>,
                     \<lparr>fd = 7, is_valid = True\<rparr>]"
    using measure_configuration_opened[OF refl refl refl refl refl,
        where env = "?P" and w = w1 and bs = 128 and p = 64 and ps = 4096 and buffer = 65536
          and sp = sp]
    by (simp add: w1 test_platform_def test_open_def perf_counter_is_valid_def)
  have c: "closed ?w' = [\<lparr>fd = 4, is_valid = True\<rparr>, \<lparr>fd = 6, is_valid = True\<rparr>,
                     \<lparr>fd = 7, is_valid = True\<rparr>, \<lparr>fd = 3, is_valid = True\<rparr>]"
    using measure_configuration_failure(2)[OF refl refl refl refl refl,
        where env = "?P" and w = w1 and bs = 128 and p = 64 and ps = 4096 and buffer = 65536
          and sp = sp]
    by (simp add: w1 test_platform_def test_open_def perf_counter_is_valid_def)
  have bad: "\<exists>c \<in> set (drop (length (opened empty_world)) (opened ?w')).
               \<not> perf_counter_is_valid c"
    by (simp add: o empty_world_def perf_counter_is_valid_def)
  from counter_open_failure_is_skipped[of ?P 128 64 False empty_world] r bad
  have "cout ?w' = cout empty_world" by blast
  with r o c show ?thesis by blast
qed

end
